theory Spec2Isabelle
  imports Main "HOL-Library.AList" "HOL-Library.Sublist"
begin

section \<open>Python values and dictionaries\<close>

text \<open>
  The values that reach the lock over the wire are decoded JSON: \<open>None\<close>, integers
  (JSON booleans behave as the integers 0 and 1 in every operation used here), strings,
  lists and objects. Floating-point numbers are not modelled. A tuple and a list are the
  same on the wire, so both are \<open>PList\<close>.
\<close>

datatype pyval =
    PNone
  | PInt int
  | PStr string
  | PList "pyval list"
  | PDict "(string \<times> pyval) list"

datatype py_error =
    KeyError
  | TypeError
  | ValueError
  | AttributeError
  | RuntimeError
  | TransportError

text \<open>
  A Python \<open>dict\<close> keeps its keys in insertion order: assigning to an existing key
  replaces the value in place, assigning to a new key appends. That is an association
  list with distinct keys.
\<close>

type_synonym ('k, 'v) pydict = "('k \<times> 'v) list"

definition dict_set :: "('k, 'v) pydict \<Rightarrow> 'k \<Rightarrow> 'v \<Rightarrow> ('k, 'v) pydict" where
  "dict_set d k v = AList.update k v d"

definition dict_get :: "('k, 'v) pydict \<Rightarrow> 'k \<Rightarrow> py_error + 'v" where
  "dict_get d k = (case map_of d k of None \<Rightarrow> Inl KeyError | Some v \<Rightarrow> Inr v)"

definition dict_del :: "('k, 'v) pydict \<Rightarrow> 'k \<Rightarrow> py_error + ('k, 'v) pydict" where
  "dict_del d k = (if k \<in> fst ` set d then Inr (AList.delete k d) else Inl KeyError)"

text \<open>Lists and dictionaries are unhashable and cannot be dictionary keys.\<close>

fun hashable :: "pyval \<Rightarrow> bool" where
  "hashable PNone = True"
| "hashable (PInt _) = True"
| "hashable (PStr _) = True"
| "hashable (PList _) = False"
| "hashable (PDict _) = False"

text \<open>Iterating a value: a list gives its elements, a string its characters, a
  dictionary its keys; \<open>None\<close> and integers are not iterable.\<close>

fun py_iter :: "pyval \<Rightarrow> pyval list option" where
  "py_iter (PList xs) = Some xs"
| "py_iter (PStr s) = Some (map (\<lambda>c. PStr [c]) s)"
| "py_iter (PDict kvs) = Some (map (\<lambda>kv. PStr (fst kv)) kvs)"
| "py_iter PNone = None"
| "py_iter (PInt _) = None"

text \<open>
  The constructor \<open>dict(x)\<close>: a dictionary is copied; any other iterable must yield
  elements that are themselves iterables of exactly two items, key and value, inserted
  in order (a later duplicate key overwrites the value of the earlier one).
\<close>

fun dict_update_seq ::
  "(pyval, pyval) pydict \<Rightarrow> pyval list \<Rightarrow> py_error + (pyval, pyval) pydict" where
  "dict_update_seq d [] = Inr d"
| "dict_update_seq d (e # es) =
     (case py_iter e of
        None \<Rightarrow> Inl TypeError
      | Some [k, v] \<Rightarrow> if hashable k then dict_update_seq (dict_set d k v) es else Inl TypeError
      | Some _ \<Rightarrow> Inl ValueError)"

fun py_dict :: "pyval \<Rightarrow> py_error + (pyval, pyval) pydict" where
  "py_dict (PDict kvs) = Inr (fold (\<lambda>kv d. dict_set d (PStr (fst kv)) (snd kv)) kvs [])"
| "py_dict x = (case py_iter x of None \<Rightarrow> Inl TypeError | Some es \<Rightarrow> dict_update_seq [] es)"

text \<open>\<open>list(d.items())\<close>: the entries in insertion order, each a two-element sequence.\<close>

definition items :: "(pyval, pyval) pydict \<Rightarrow> pyval" where
  "items d = PList (map (\<lambda>kv. PList [fst kv, snd kv]) d)"

subsection \<open>The token's wire form\<close>

definition prepare :: "(pyval, pyval) pydict \<Rightarrow> pyval" where
  "prepare token = items token"

definition unprepare :: "pyval \<Rightarrow> py_error + (pyval, pyval) pydict" where
  "unprepare token = py_dict token"

text \<open>A token mapping peer ids to timestamps, as a dictionary of integer values.\<close>

definition int_dict :: "(int \<times> int) list \<Rightarrow> (pyval, pyval) pydict" where
  "int_dict xs = map (\<lambda>kv. (PInt (fst kv), PInt (snd kv))) xs"

subsection \<open>The hand-off order\<close>

text \<open>
  \<open>get_order\<close> walks the membership once and appends each id to \<open>lower\<close> or to
  \<open>higher\<close>; an id equal to the owner's goes to neither.
\<close>

fun get_order_loop :: "int \<Rightarrow> int list \<Rightarrow> int list \<Rightarrow> int list \<Rightarrow> int list \<times> int list" where
  "get_order_loop own [] higher lower = (higher, lower)"
| "get_order_loop own (peer_id # ps) higher lower =
     (if peer_id < own then get_order_loop own ps higher (lower @ [peer_id])
      else if peer_id > own then get_order_loop own ps (higher @ [peer_id]) lower
      else get_order_loop own ps higher lower)"

definition get_order :: "int \<Rightarrow> int list \<Rightarrow> int list" where
  "get_order own ps = (case get_order_loop own ps [] [] of (higher, lower) \<Rightarrow> higher @ lower)"

section \<open>The lock state\<close>

datatype tstate = NO_TOKEN | TOKEN_PRESENT | TOKEN_HELD

text \<open>
  What a run does to the outside world is recorded in a trace, oldest event first: the
  operations on the monitor \<open>peer_list.lock\<close>, the outbound remote calls (with the
  peer, the arguments and whether the call was delivered) and the calls of
  \<open>peer_list.unregister_peer\<close>. Output written with \<open>print\<close> is not recorded.
\<close>

datatype event =
    Acquire
  | Release
  | Wait
  | NotifyAll
  | RequestTokenCall int int int bool
  | ObtainTokenCall int pyval bool
  | UnregisterPeer int

text \<open>
  The fields of \<open>DistributedLock\<close>, together with what the lock reads from its
  collaborators: \<open>owner.id\<close>, the membership \<open>peer_list.get_peers()\<close> returns, the
  number of times the monitor \<open>peer_list.lock\<close> is currently held, and the trace.
  \<open>token\<close> is \<open>None\<close> until \<open>initialize\<close> runs.
\<close>

record lock_state =
  owner_id :: int
  peers :: "int list"
  time :: int
  token :: "(pyval, pyval) pydict option"
  request :: "(int, int) pydict"
  state :: tstate
  mon :: nat
  trace :: "event list"

definition init_lock :: "int \<Rightarrow> int list \<Rightarrow> lock_state" where
  "init_lock own ps =
     \<lparr>owner_id = own, peers = ps, time = 0, token = None, request = [],
      state = NO_TOKEN, mon = 0, trace = []\<rparr>"

subsection \<open>Statements\<close>

text \<open>
  A statement runs on a lock state and either returns, raises, or never returns
  (\<open>acquire\<close> waiting for a token that is never delivered). The state it leaves behind
  is kept in each case: an exception does not undo the assignments made before it.
\<close>

datatype outcome = Returned | Raised py_error | Blocked

type_synonym stmt = "lock_state \<Rightarrow> outcome \<times> lock_state"

definition skip :: stmt where
  "skip s = (Returned, s)"

definition assign :: "(lock_state \<Rightarrow> lock_state) \<Rightarrow> stmt" where
  "assign f s = (Returned, f s)"

fun block :: "stmt list \<Rightarrow> stmt" where
  "block [] s = (Returned, s)"
| "block (c # cs) s = (case c s of (Returned, s') \<Rightarrow> block cs s' | r \<Rightarrow> r)"

text \<open>\<open>try: body except Exception: handler\<close>; every error modelled here is an \<open>Exception\<close>.\<close>

definition try_except :: "stmt \<Rightarrow> stmt \<Rightarrow> stmt" where
  "try_except body handler s =
     (case body s of (Raised e, s') \<Rightarrow> handler s' | r \<Rightarrow> r)"

text \<open>\<open>try: body finally: fin\<close>: \<open>fin\<close> runs on both exits, and the exception of
  \<open>body\<close> is raised again after it unless \<open>fin\<close> raises itself.\<close>

definition try_finally :: "stmt \<Rightarrow> stmt \<Rightarrow> stmt" where
  "try_finally body fin s =
     (case body s of
        (Returned, s') \<Rightarrow> fin s'
      | (Raised e, s') \<Rightarrow> (case fin s' of (Returned, s'') \<Rightarrow> (Raised e, s'') | r \<Rightarrow> r)
      | (Blocked, s') \<Rightarrow> (Blocked, s'))"

fun for_each :: "'a list \<Rightarrow> ('a \<Rightarrow> stmt) \<Rightarrow> stmt" where
  "for_each [] body s = (Returned, s)"
| "for_each (x # xs) body s =
     (case body x s of (Returned, s') \<Rightarrow> for_each xs body s' | r \<Rightarrow> r)"

subsection \<open>The peer registry and its monitor\<close>

text \<open>
  Modelled from the spec: the class behind \<open>peer_list\<close> (its \<open>lock\<close>, \<open>get_peers\<close>,
  \<open>peer\<close> and \<open>unregister_peer\<close>) is not among the sources. The spec describes a
  mutual-exclusion monitor with \<open>acquire\<close>, \<open>release\<close>, \<open>wait\<close> and \<open>notify_all\<close>,
  \<open>get_peers\<close> returning the ordered peer ids without the owner's, and
  \<open>unregister_peer\<close> dropping an id from the membership. The monitor is modelled as
  Python's condition variable: a hold count, where releasing, waiting on or notifying a
  monitor that is not held raises \<open>RuntimeError\<close>. The handle \<open>peer(pid)\<close> is the id.
\<close>

definition lock_acquire :: stmt where
  "lock_acquire s = (Returned, s\<lparr>mon := Suc (mon s), trace := trace s @ [Acquire]\<rparr>)"

definition lock_release :: stmt where
  "lock_release s =
     (if mon s = 0 then (Raised RuntimeError, s)
      else (Returned, s\<lparr>mon := mon s - 1, trace := trace s @ [Release]\<rparr>))"

definition lock_notify_all :: stmt where
  "lock_notify_all s =
     (if mon s = 0 then (Raised RuntimeError, s)
      else (Returned, s\<lparr>trace := trace s @ [NotifyAll]\<rparr>))"

definition get_peers :: "lock_state \<Rightarrow> int list" where
  "get_peers s = peers s"

definition peer_list_unregister_peer :: "int \<Rightarrow> stmt" where
  "peer_list_unregister_peer pid s =
     (Returned, s\<lparr>peers := removeAll pid (peers s), trace := trace s @ [UnregisterPeer pid]\<rparr>)"

subsection \<open>Reading and writing the two dictionaries\<close>

definition tick :: stmt where
  "tick s = (Returned, s\<lparr>time := time s + 1\<rparr>)"

definition set_state :: "tstate \<Rightarrow> stmt" where
  "set_state st s = (Returned, s\<lparr>state := st\<rparr>)"

definition request_setitem :: "int \<Rightarrow> int \<Rightarrow> stmt" where
  "request_setitem k v s = (Returned, s\<lparr>request := dict_set (request s) k v\<rparr>)"

definition request_delitem :: "int \<Rightarrow> stmt" where
  "request_delitem k s =
     (case dict_del (request s) k of
        Inl e \<Rightarrow> (Raised e, s)
      | Inr d \<Rightarrow> (Returned, s\<lparr>request := d\<rparr>))"

text \<open>Subscripting \<open>self.token\<close> while it is still \<open>None\<close> raises \<open>TypeError\<close>.\<close>

definition token_getitem :: "lock_state \<Rightarrow> pyval \<Rightarrow> py_error + pyval" where
  "token_getitem s k = (case token s of None \<Rightarrow> Inl TypeError | Some d \<Rightarrow> dict_get d k)"

definition token_setitem :: "pyval \<Rightarrow> pyval \<Rightarrow> stmt" where
  "token_setitem k v s =
     (case token s of
        None \<Rightarrow> (Raised TypeError, s)
      | Some d \<Rightarrow> (Returned, s\<lparr>token := Some (dict_set d k v)\<rparr>))"

definition token_delitem :: "pyval \<Rightarrow> stmt" where
  "token_delitem k s =
     (case token s of
        None \<Rightarrow> (Raised TypeError, s)
      | Some d \<Rightarrow>
          (case dict_del d k of
             Inl e \<Rightarrow> (Raised e, s)
           | Inr d' \<Rightarrow> (Returned, s\<lparr>token := Some d'\<rparr>)))"

section \<open>The operations of the lock\<close>

subsection \<open>initialize\<close>

definition initialize :: stmt where
  "initialize =
     block
      [lock_acquire,
       try_finally
        (try_except
          (block
            [(\<lambda>s. request_setitem (owner_id s) 0 s),
             assign (\<lambda>s. s\<lparr>token := Some [(PInt (owner_id s), PInt 0)]\<rparr>),
             (\<lambda>s. if get_peers s \<noteq> []
                  then for_each (get_peers s)
                         (\<lambda>peer. block [request_setitem peer 0,
                                         token_setitem (PInt peer) (PInt 0)]) s
                  else set_state TOKEN_PRESENT s)])
          skip)
        lock_release]"

subsection \<open>register\_peer and unregister\_peer\<close>

definition register_peer :: "int \<Rightarrow> stmt" where
  "register_peer pid =
     block [lock_acquire, tick, request_setitem pid 0,
            token_setitem (PInt pid) (PInt 0), lock_release]"

definition unregister_peer :: "int \<Rightarrow> stmt" where
  "unregister_peer pid =
     block [lock_acquire, tick, request_delitem pid,
            token_delitem (PInt pid), lock_release]"

subsection \<open>obtain\_token\<close>

text \<open>
  The merge loop \<open>for peer_id in msg\<close>: the entry is stored first, then the clock is
  raised; adding 1 to a value that is not a number raises \<open>TypeError\<close> after the store.
\<close>

fun merge_loop :: "(pyval, pyval) pydict \<Rightarrow> stmt" where
  "merge_loop [] s = (Returned, s)"
| "merge_loop (e # es) s =
     (case token_setitem (fst e) (snd e) s of
        (Returned, s1) \<Rightarrow>
          (case snd e of
             PInt t \<Rightarrow> merge_loop es (s1\<lparr>time := max (time s1) (t + 1)\<rparr>)
           | _ \<Rightarrow> (Raised TypeError, s1))
      | r \<Rightarrow> r)"

definition obtain_token :: "pyval \<Rightarrow> stmt" where
  "obtain_token payload =
     block
      [lock_acquire,
       tick,
       try_finally
        (try_except
          (\<lambda>s. case unprepare payload of
                 Inl e \<Rightarrow> (Raised e, s)
               | Inr msg \<Rightarrow> merge_loop msg s)
          skip)
        (block [set_state TOKEN_PRESENT, lock_notify_all, lock_release])]"

subsection \<open>release\<close>

text \<open>
  An outbound \<open>obtain_token\<close> call to peer \<open>p\<close>. The argument \<open>_prepare(self.token)\<close>
  is evaluated first (\<open>None\<close> has no \<open>items\<close>); the call itself raises a transport
  error exactly when \<open>p\<close> is unreachable, which the parameter \<open>up\<close> decides. Nothing
  else runs on this peer while the call is in progress.
\<close>

definition call_obtain_token :: "(int \<Rightarrow> bool) \<Rightarrow> int \<Rightarrow> stmt" where
  "call_obtain_token up p s =
     (case token s of
        None \<Rightarrow> (Raised AttributeError, s)
      | Some d \<Rightarrow>
          if up p then (Returned, s\<lparr>trace := trace s @ [ObtainTokenCall p (prepare d) True]\<rparr>)
          else (Raised TransportError, s\<lparr>trace := trace s @ [ObtainTokenCall p (prepare d) False]\<rparr>))"

text \<open>
  The loop \<open>for peer_id in order\<close> of \<open>release\<close>. Comparing the request time with a
  token entry that is not a number raises \<open>TypeError\<close>. A successful send ends the loop
  (\<open>break\<close>); the handler of a failed send starts with the monitor as the failure left it.
\<close>

fun release_loop :: "(int \<Rightarrow> bool) \<Rightarrow> int list \<Rightarrow> stmt" where
  "release_loop up [] s = (Returned, s)"
| "release_loop up (peer_id # ps) s =
     (case dict_get (request s) peer_id of
        Inl e \<Rightarrow> (Raised e, s)
      | Inr r \<Rightarrow>
          (case token_getitem s (PInt peer_id) of
             Inl e \<Rightarrow> (Raised e, s)
           | Inr (PInt t) \<Rightarrow>
               if r > t then
                 (case block [lock_release, call_obtain_token up peer_id] s of
                    (Returned, s1) \<Rightarrow> block [lock_acquire, set_state NO_TOKEN] s1
                  | (Raised e, s1) \<Rightarrow>
                      (case block [set_state TOKEN_PRESENT,
                                   request_delitem peer_id,
                                   token_delitem (PInt peer_id),
                                   peer_list_unregister_peer peer_id] s1 of
                         (Returned, s2) \<Rightarrow> release_loop up ps s2
                       | r \<Rightarrow> r)
                  | (Blocked, s1) \<Rightarrow> (Blocked, s1))
               else release_loop up ps s
           | Inr _ \<Rightarrow> (Raised TypeError, s)))"

definition release :: "(int \<Rightarrow> bool) \<Rightarrow> stmt" where
  "release up =
     block
      [lock_acquire,
       tick,
       (\<lambda>s. if state s = TOKEN_HELD
            then block [token_setitem (PInt (owner_id s)) (PInt (time s)),
                        set_state TOKEN_PRESENT] s
            else (Returned, s)),
       (\<lambda>s. if state s = TOKEN_PRESENT
            then try_finally
                   (try_except (release_loop up (get_order (owner_id s) (get_peers s))) skip)
                   lock_release s
            else (Returned, s))]"

subsection \<open>request\_token\<close>

definition request_token_update :: "int \<Rightarrow> int \<Rightarrow> stmt" where
  "request_token_update t pid =
     block
      [lock_acquire,
       assign (\<lambda>s. s\<lparr>time := max (time s + 1) (t + 1)\<rparr>),
       (\<lambda>s. case dict_get (request s) pid of
              Inl e \<Rightarrow> (Raised e, s)
            | Inr r \<Rightarrow> request_setitem pid (max r (time s)) s),
       lock_release]"

definition request_token :: "(int \<Rightarrow> bool) \<Rightarrow> int \<Rightarrow> int \<Rightarrow> stmt" where
  "request_token up t pid =
     block
      [request_token_update t pid,
       (\<lambda>s. if state s = TOKEN_PRESENT then release up s else (Returned, s))]"

subsection \<open>destroy\<close>

fun destroy_loop :: "(int \<Rightarrow> bool) \<Rightarrow> int list \<Rightarrow> stmt" where
  "destroy_loop up [] s = (Returned, s)"
| "destroy_loop up (peer_id # ps) s =
     (case block [lock_release, call_obtain_token up peer_id] s of
        (Returned, s1) \<Rightarrow> block [lock_acquire, set_state NO_TOKEN] s1
      | (Raised e, s1) \<Rightarrow>
          (case lock_acquire s1 of
             (Returned, s2) \<Rightarrow> destroy_loop up ps s2
           | r \<Rightarrow> r)
      | (Blocked, s1) \<Rightarrow> (Blocked, s1))"

definition destroy :: "(int \<Rightarrow> bool) \<Rightarrow> stmt" where
  "destroy up =
     block
      [lock_acquire,
       tick,
       (\<lambda>s. if state s \<noteq> NO_TOKEN
            then block [lock_release, release up, lock_acquire] s
            else (Returned, s)),
       (\<lambda>s. if state s = TOKEN_PRESENT
            then destroy_loop up (get_order (owner_id s) (get_peers s)) s
            else (Returned, s)),
       lock_release]"

subsection \<open>acquire\<close>

text \<open>
  An outbound \<open>request_token\<close> call has three outcomes: the peer is unreachable and the
  call raises; the peer answers; or the peer answers after handing the token to this
  peer, whose \<open>obtain_token\<close> then ran (on another thread, the monitor being free)
  while the call was in progress.
\<close>

datatype reply = Down | Up | Granted pyval

definition call_request_token :: "(int \<Rightarrow> reply) \<Rightarrow> int \<Rightarrow> stmt" where
  "call_request_token reply p s =
     (case reply p of
        Down \<Rightarrow>
          (Raised TransportError,
           s\<lparr>trace := trace s @ [RequestTokenCall p (time s) (owner_id s) False]\<rparr>)
      | Up \<Rightarrow>
          (Returned, s\<lparr>trace := trace s @ [RequestTokenCall p (time s) (owner_id s) True]\<rparr>)
      | Granted payload \<Rightarrow>
          (Returned,
           snd (obtain_token payload
                 (s\<lparr>trace := trace s @ [RequestTokenCall p (time s) (owner_id s) True]\<rparr>))))"

fun acquire_loop :: "(int \<Rightarrow> reply) \<Rightarrow> int list \<Rightarrow> stmt" where
  "acquire_loop reply [] s = (Returned, s)"
| "acquire_loop reply (peer_id # ps) s =
     (case try_finally
             (try_except
               (block [lock_release, call_request_token reply peer_id])
               (block [lock_acquire,
                       request_delitem peer_id,
                       token_delitem (PInt peer_id),
                       peer_list_unregister_peer peer_id,
                       lock_release]))
             lock_acquire s of
        (Returned, s') \<Rightarrow> acquire_loop reply ps s'
      | r \<Rightarrow> r)"

text \<open>
  \<open>while self.state != TOKEN_PRESENT: wait()\<close>. Waiting gives the monitor up and takes
  it back on waking; the thread is woken by the next \<open>obtain_token\<close> that is delivered,
  and waits forever when none is. \<open>late\<close> lists the payloads delivered while waiting.
\<close>

fun acquire_wait :: "pyval list \<Rightarrow> stmt" where
  "acquire_wait [] s =
     (if state s \<noteq> TOKEN_PRESENT
      then (if mon s = 0 then (Raised RuntimeError, s)
            else (Blocked, s\<lparr>trace := trace s @ [Wait]\<rparr>))
      else (Returned, s))"
| "acquire_wait (payload # late) s =
     (if state s \<noteq> TOKEN_PRESENT
      then (if mon s = 0 then (Raised RuntimeError, s)
            else acquire_wait late
                   ((snd (obtain_token payload (s\<lparr>mon := 0, trace := trace s @ [Wait]\<rparr>)))
                      \<lparr>mon := mon s\<rparr>))
      else (Returned, s))"

definition acquire :: "(int \<Rightarrow> reply) \<Rightarrow> pyval list \<Rightarrow> stmt" where
  "acquire reply late =
     block
      [lock_acquire,
       tick,
       (\<lambda>s. if state s = NO_TOKEN
            then block [acquire_loop reply (get_peers s), acquire_wait late] s
            else (Returned, s)),
       set_state TOKEN_HELD,
       (\<lambda>s. token_setitem (PInt (owner_id s)) (PInt (time s)) s),
       lock_release]"

subsection \<open>display\_status\<close>

definition display_status :: stmt where
  "display_status = block [lock_acquire, try_finally skip lock_release]"

subsection \<open>Reachable states\<close>

text \<open>
  The states a peer can be in: it is constructed, \<open>initialize\<close> runs once, and then the
  public operations run one after the other, each against any behaviour of the other
  peers, while the registry may change the membership in between. The state an
  operation leaves behind counts whether it returned, raised or blocked.
\<close>

inductive reachable :: "lock_state \<Rightarrow> bool" where
  r_initialize: "reachable (snd (initialize (init_lock own ps)))"
| r_membership: "reachable s \<Longrightarrow> reachable (s\<lparr>peers := ps\<rparr>)"
| r_register_peer: "reachable s \<Longrightarrow> reachable (snd (register_peer pid s))"
| r_unregister_peer: "reachable s \<Longrightarrow> reachable (snd (unregister_peer pid s))"
| r_acquire: "reachable s \<Longrightarrow> reachable (snd (acquire reply late s))"
| r_release: "reachable s \<Longrightarrow> reachable (snd (release up s))"
| r_request_token: "reachable s \<Longrightarrow> reachable (snd (request_token up t pid s))"
| r_obtain_token: "reachable s \<Longrightarrow> reachable (snd (obtain_token payload s))"
| r_destroy: "reachable s \<Longrightarrow> reachable (snd (destroy up s))"
| r_display_status: "reachable s \<Longrightarrow> reachable (snd (display_status s))"

subsection \<open>Example peers and environments\<close>

text \<open>The peer after construction and \<open>initialize()\<close>.\<close>

definition initialized :: "int \<Rightarrow> int list \<Rightarrow> lock_state" where
  "initialized own ps = snd (initialize (init_lock own ps))"

text \<open>
  A lock state given by its fields, with the token dictionary defined, the monitor free
  and nothing traced yet; the environment in which every peer is reachable, and the one
  in which exactly one peer is not.
\<close>

definition lock_with ::
  "int \<Rightarrow> int list \<Rightarrow> int \<Rightarrow> tstate \<Rightarrow> (int \<times> int) list \<Rightarrow> (int \<times> int) list \<Rightarrow> lock_state" where
  "lock_with own ps clk st req tok =
     \<lparr>owner_id = own, peers = ps, time = clk, token = Some (int_dict tok), request = req,
      state = st, mon = 0, trace = []\<rparr>"

definition all_up :: "int \<Rightarrow> bool" where
  "all_up p = True"

definition up_except :: "int \<Rightarrow> int \<Rightarrow> bool" where
  "up_except q p = (p \<noteq> q)"

text \<open>
  Peer 1 starts alone and so owns the token; peers 2 and 3 join; peer 1 then takes the
  lock. The state this leaves is the starting point of the examples: peer 1 holds the
  token and nobody has asked for it yet.
\<close>

definition token_holder :: lock_state where
  "token_holder =
     snd (acquire (\<lambda>p. Up) []
       (snd (register_peer 3 (snd (register_peer 2 ((initialized 1 [])\<lparr>peers := [2, 3]\<rparr>))))))"

subsection \<open>Relations between the state before and after a statement\<close>

text \<open>
  \<open>follows R c\<close>: whatever state \<open>c\<close> starts from and however it ends, the state it
  leaves is related by \<open>R\<close> to the one it started from. A steady relation is a preorder
  that holds across an advance of the clock, across any change of the state, the
  membership and the monitor, across an extension of the trace, across a deletion from
  either dictionary and across a store into the token dictionary.
\<close>

definition follows :: "(lock_state \<Rightarrow> lock_state \<Rightarrow> bool) \<Rightarrow> stmt \<Rightarrow> bool" where
  "follows R c \<longleftrightarrow> (\<forall>s. R s (snd (c s)))"

definition preorder_rel :: "(lock_state \<Rightarrow> lock_state \<Rightarrow> bool) \<Rightarrow> bool" where
  "preorder_rel R \<longleftrightarrow> (\<forall>s. R s s) \<and> (\<forall>a b c. R a b \<longrightarrow> R b c \<longrightarrow> R a c)"

definition steady :: "(lock_state \<Rightarrow> lock_state \<Rightarrow> bool) \<Rightarrow> bool" where
  "steady R \<longleftrightarrow>
     preorder_rel R \<and>
     (\<forall>s t. time s \<le> t \<longrightarrow> R s (s\<lparr>time := t\<rparr>)) \<and>
     (\<forall>s st. R s (s\<lparr>state := st\<rparr>)) \<and>
     (\<forall>s ps. R s (s\<lparr>peers := ps\<rparr>)) \<and>
     (\<forall>s m. R s (s\<lparr>mon := m\<rparr>)) \<and>
     (\<forall>s evs. R s (s\<lparr>trace := trace s @ evs\<rparr>)) \<and>
     (\<forall>k. follows R (request_delitem k)) \<and>
     (\<forall>k v. follows R (token_setitem k v)) \<and>
     (\<forall>k. follows R (token_delitem k))"

text \<open>\<open>request[q]\<close> afterwards is what it was, unless the key is gone.\<close>

definition request_kept :: "int \<Rightarrow> lock_state \<Rightarrow> lock_state \<Rightarrow> bool" where
  "request_kept q s s' \<longleftrightarrow>
     dict_get (request s') q = Inl KeyError \<or> dict_get (request s') q = dict_get (request s) q"

text \<open>A defined token dictionary stays defined.\<close>

definition token_kept :: "lock_state \<Rightarrow> lock_state \<Rightarrow> bool" where
  "token_kept s s' \<longleftrightarrow> (token s \<noteq> None \<longrightarrow> token s' \<noteq> None)"

text \<open>
  No stored request time is ahead of the clock, and the clock is not negative; and the
  relation between two states that the second has this property when the first has.
\<close>

definition request_bounded :: "lock_state \<Rightarrow> bool" where
  "request_bounded s \<longleftrightarrow> 0 \<le> time s \<and> (\<forall>kv \<in> set (request s). snd kv \<le> time s)"

definition bound_kept :: "lock_state \<Rightarrow> lock_state \<Rightarrow> bool" where
  "bound_kept s s' \<longleftrightarrow> (request_bounded s \<longrightarrow> request_bounded s')"

text \<open>The trace afterwards starts with the trace before: nothing recorded is undone.\<close>

definition trace_kept :: "lock_state \<Rightarrow> lock_state \<Rightarrow> bool" where
  "trace_kept s s' \<longleftrightarrow> prefix (trace s) (trace s')"

subsection \<open>What the merge loop of obtain\_token computes\<close>

text \<open>
  Only an integer can have 1 added to it. \<open>merged_token msg tk\<close> is the token dictionary
  \<open>tk\<close> after the entries of \<open>msg\<close> have been stored in order, and \<open>merged_time xs clk\<close>
  the clock \<open>clk\<close> after it has been raised to \<open>t + 1\<close> for each timestamp \<open>t\<close> of \<open>xs\<close>.
\<close>

fun is_int :: "pyval \<Rightarrow> bool" where
  "is_int (PInt _) = True"
| "is_int _ = False"

definition merged_token ::
  "(pyval, pyval) pydict \<Rightarrow> (pyval, pyval) pydict \<Rightarrow> (pyval, pyval) pydict" where
  "merged_token msg tk = fold (\<lambda>kv d. dict_set d (fst kv) (snd kv)) msg tk"

definition merged_time :: "(int \<times> int) list \<Rightarrow> int \<Rightarrow> int" where
  "merged_time xs clk = fold (\<lambda>kv c. max c (snd kv + 1)) xs clk"

section \<open>Dictionary lemmas\<close>

lemma dict_get_set_same: "dict_get (dict_set d k v) k = Inr v"
  by (simp add: dict_get_def dict_set_def update_conv')

lemma dict_get_set_other: "k' \<noteq> k \<Longrightarrow> dict_get (dict_set d k v) k' = dict_get d k'"
  by (simp add: dict_get_def dict_set_def update_conv')

lemma distinct_dict_set: "distinct (map fst d) \<Longrightarrow> distinct (map fst (dict_set d k v))"
  by (simp add: dict_set_def distinct_update)

lemma dict_set_append_new:
  "k \<notin> fst ` set d \<Longrightarrow> dict_set (d @ e) k v = d @ dict_set e k v"
  by (induction d) (auto simp: dict_set_def)

lemma dict_update_seq_items:
  assumes "distinct (map fst e)" and "\<forall>k \<in> fst ` set e. hashable k"
    and "fst ` set d \<inter> fst ` set e = {}"
  shows "dict_update_seq d (map (\<lambda>kv. PList [fst kv, snd kv]) e) = Inr (d @ e)"
  using assms
proof (induction e arbitrary: d)
  case Nil
  then show ?case by simp
next
  case (Cons a e)
  have new: "fst a \<notin> fst ` set d" using Cons.prems(3) by auto
  have step: "dict_set d (fst a) (snd a) = d @ [a]"
    using dict_set_append_new [OF new, of "[]" "snd a"] by (simp add: dict_set_def)
  have disj: "fst ` set (d @ [a]) \<inter> fst ` set e = {}"
    using Cons.prems(1,3) by auto
  have "dict_update_seq (d @ [a]) (map (\<lambda>kv. PList [fst kv, snd kv]) e) = Inr ((d @ [a]) @ e)"
    using Cons.IH [of "d @ [a]"] Cons.prems(1,2) disj by simp
  then show ?case using Cons.prems(2) step by simp
qed

lemma unprepare_prepare:
  assumes "distinct (map fst d)" and "\<forall>k \<in> fst ` set d. hashable k"
  shows "unprepare (prepare d) = Inr d"
  using dict_update_seq_items [OF assms, of "[]"]
  by (simp add: unprepare_def prepare_def items_def)

lemma int_dict_keys: "map fst (int_dict xs) = map PInt (map fst xs)"
  by (simp add: int_dict_def comp_def)

lemma distinct_int_dict: "distinct (map fst xs) \<Longrightarrow> distinct (map fst (int_dict xs))"
  by (simp add: int_dict_keys distinct_map inj_on_def)

lemma hashable_int_dict: "\<forall>k \<in> fst ` set (int_dict xs). hashable k"
  by (auto simp: int_dict_def)

lemma map_of_int_dict: "map_of (int_dict xs) (PInt p) = map_option PInt (map_of xs p)"
  by (induction xs) (auto simp: int_dict_def)

section \<open>The wire form round trip\<close>

text \<open>
  C9. For every finite mapping from peer ids to timestamps (a dictionary with distinct
  integer keys and integer values), \<open>_prepare\<close> followed by \<open>_unprepare\<close> returns
  without error a dictionary with exactly the same key-value pairs, in the same order.
\<close>

theorem prepare_unprepare_roundtrip:
  assumes "distinct (map fst xs)"
  shows "unprepare (prepare (int_dict xs)) = Inr (int_dict xs)"
  using unprepare_prepare [OF distinct_int_dict [OF assms] hashable_int_dict] .

theorem prepare_unprepare_roundtrip_witness:
  "distinct (map fst [(1::int, 0::int), (2, 3)]) \<and>
   unprepare (prepare (int_dict [(1, 0), (2, 3)])) = Inr (int_dict [(1, 0), (2, 3)])"
  using prepare_unprepare_roundtrip [of "[(1, 0), (2, 3)]"] by simp

section \<open>Statements: basic facts\<close>

lemmas stmt_defs = skip_def assign_def try_except_def try_finally_def lock_acquire_def
  lock_release_def lock_notify_all_def get_peers_def peer_list_unregister_peer_def tick_def
  set_state_def request_setitem_def request_delitem_def token_getitem_def token_setitem_def
  token_delitem_def

lemma outcome_case_id:
  "(case x of (Returned, s') \<Rightarrow> (Returned, s') | (Raised e, s') \<Rightarrow> (Raised e, s')
      | (Blocked, s') \<Rightarrow> (Blocked, s')) = x"
  by (simp split: prod.splits outcome.splits)

lemma block_single: "block [c] s = c s"
  by (cases "c s") (auto split: outcome.splits)

section \<open>request\_token\<close>

lemma request_token_update_eq:
  assumes "dict_get (request s) pid = Inr r"
  shows "request_token_update t pid s =
     (Returned, s\<lparr>time := max (time s + 1) (t + 1),
                  request := dict_set (request s) pid (max r (max (time s + 1) (t + 1))),
                  trace := trace s @ [Acquire, Release]\<rparr>)"
  using assms by (simp add: request_token_update_def stmt_defs)

lemma request_token_unfold:
  "request_token up t pid s =
     (case request_token_update t pid s of
        (Returned, s') \<Rightarrow> if state s' = TOKEN_PRESENT then release up s' else (Returned, s')
      | r \<Rightarrow> r)"
  unfolding request_token_def block.simps(2) [of "request_token_update t pid"] block_single ..

text \<open>
  C8. For every lock state with \<open>pid\<close> among the keys of \<open>request\<close>,
  \<open>request_token(req_time, pid)\<close> sets the clock to \<open>max(clock + 1, req_time + 1)\<close> and
  \<open>request[pid]\<close> to the larger of its old value and the new clock; this update step
  changes no other field of the lock (the monitor is taken and given back, which the
  trace records); and \<open>release()\<close> is then invoked exactly when the state is
  \<open>TOKEN_PRESENT\<close>.
\<close>

theorem request_token_effect:
  assumes "dict_get (request s) pid = Inr r"
  shows "request_token up t pid s =
     (let clk = max (time s + 1) (t + 1);
          s1 = s\<lparr>time := clk, request := dict_set (request s) pid (max r clk),
                 trace := trace s @ [Acquire, Release]\<rparr>
      in if state s = TOKEN_PRESENT then release up s1 else (Returned, s1))"
  by (simp add: request_token_unfold request_token_update_eq [OF assms] Let_def)

theorem request_token_effect_witness:
  "dict_get (request (lock_with 1 [2] 0 TOKEN_PRESENT [(1, 0), (2, 0)] [(1, 0), (2, 0)])) 2 = Inr 0 \<and>
   request_token all_up 1 2 (lock_with 1 [2] 0 TOKEN_PRESENT [(1, 0), (2, 0)] [(1, 0), (2, 0)]) =
     release all_up
       ((lock_with 1 [2] 0 TOKEN_PRESENT [(1, 0), (2, 0)] [(1, 0), (2, 0)])
          \<lparr>time := 2, request := [(1, 0), (2, 2)], trace := [Acquire, Release]\<rparr>)"
proof -
  have h: "dict_get (request (lock_with 1 [2] 0 TOKEN_PRESENT [(1, 0), (2, 0)] [(1, 0), (2, 0)])) 2 = Inr 0"
    by (simp add: lock_with_def dict_get_def)
  show ?thesis
    using h request_token_effect [OF h, of all_up 1]
    by (simp add: lock_with_def dict_set_def Let_def)
qed

section \<open>release without the token\<close>

lemma release_no_token:
  "state s = NO_TOKEN \<Longrightarrow>
   release up s =
     (Returned, s\<lparr>time := time s + 1, mon := Suc (mon s), trace := trace s @ [Acquire]\<rparr>)"
  by (simp add: release_def stmt_defs)

text \<open>
  C4. \<open>release()\<close> called in state \<open>NO_TOKEN\<close> returns with the monitor still held: the
  \<open>finally\<close> that releases it belongs to the branch for \<open>TOKEN_PRESENT\<close>, which is not
  entered. Here the monitor is free before the call and held once after it.
\<close>

theorem release_no_token_keeps_monitor:
  "mon (lock_with 2 [1] 0 NO_TOKEN [(2, 0), (1, 0)] [(2, 0), (1, 0)]) = 0 \<and>
   release all_up (lock_with 2 [1] 0 NO_TOKEN [(2, 0), (1, 0)] [(2, 0), (1, 0)]) =
     (Returned,
      (lock_with 2 [1] 0 NO_TOKEN [(2, 0), (1, 0)] [(2, 0), (1, 0)])
        \<lparr>time := 1, mon := 1, trace := [Acquire]\<rparr>)"
  by (simp add: release_no_token lock_with_def)

section \<open>What every step keeps\<close>


lemma followsD: "follows R c \<Longrightarrow> R s (snd (c s))"
  by (simp add: follows_def)

lemma preorder_refl: "preorder_rel R \<Longrightarrow> R s s"
  by (simp add: preorder_rel_def)

lemma preorder_trans: "preorder_rel R \<Longrightarrow> R a b \<Longrightarrow> R b c \<Longrightarrow> R a c"
  unfolding preorder_rel_def by blast

lemma follows_skip: "preorder_rel R \<Longrightarrow> follows R skip"
  by (simp add: follows_def skip_def preorder_refl)

lemma follows_return: "preorder_rel R \<Longrightarrow> follows R (\<lambda>s. (x, s))"
  by (simp add: follows_def preorder_refl)

lemma follows_seq:
  assumes "preorder_rel R" and "follows R c" and "follows R d"
  shows "follows R (\<lambda>s. case c s of (Returned, s') \<Rightarrow> d s' | r \<Rightarrow> r)"
  unfolding follows_def
proof
  fix s
  obtain o1 s1 where c: "c s = (o1, s1)" by (cases "c s")
  have 1: "R s s1" using followsD [OF assms(2), of s] c by simp
  have 2: "R s1 (snd (d s1))" using followsD [OF assms(3)] .
  show "R s (snd (case c s of (Returned, s') \<Rightarrow> d s' | r \<Rightarrow> r))"
    using c 1 preorder_trans [OF assms(1) 1 2] by (cases o1) simp_all
qed

lemma follows_block:
  assumes "preorder_rel R" and "\<forall>c \<in> set cs. follows R c"
  shows "follows R (block cs)"
  using assms(2)
proof (induction cs)
  case Nil
  have "block [] = (\<lambda>s. (Returned, s))" by (rule ext) simp
  then show ?case using follows_return [OF assms(1)] by simp
next
  case (Cons c cs)
  have "block (c # cs) = (\<lambda>s. case c s of (Returned, s') \<Rightarrow> block cs s' | r \<Rightarrow> r)"
    by (rule ext) simp
  then show ?case
    using follows_seq [OF assms(1), of c "block cs"] Cons by simp
qed

lemma follows_try_except:
  assumes "preorder_rel R" and "follows R c" and "follows R h"
  shows "follows R (try_except c h)"
  unfolding follows_def
proof
  fix s
  obtain o1 s1 where c: "c s = (o1, s1)" by (cases "c s")
  have 1: "R s s1" using followsD [OF assms(2), of s] c by simp
  have 2: "R s1 (snd (h s1))" using followsD [OF assms(3)] .
  show "R s (snd (try_except c h s))"
    using c 1 preorder_trans [OF assms(1) 1 2] by (cases o1) (simp_all add: try_except_def)
qed

lemma follows_try_finally:
  assumes "preorder_rel R" and "follows R c" and "follows R f"
  shows "follows R (try_finally c f)"
  unfolding follows_def
proof
  fix s
  obtain o1 s1 where c: "c s = (o1, s1)" by (cases "c s")
  obtain o2 s2 where f: "f s1 = (o2, s2)" by (cases "f s1")
  have 1: "R s s1" using followsD [OF assms(2), of s] c by simp
  have 2: "R s1 s2" using followsD [OF assms(3), of s1] f by simp
  show "R s (snd (try_finally c f s))"
    using c f 1 preorder_trans [OF assms(1) 1 2]
    by (cases o1; cases o2) (simp_all add: try_finally_def)
qed

lemma follows_if:
  assumes "follows R c" and "follows R d"
  shows "follows R (\<lambda>s. if g s then c s else d s)"
  using assms by (simp add: follows_def)

lemma follows_dep:
  assumes "\<And>x. follows R (f x)"
  shows "follows R (\<lambda>s. f (g s) s)"
  using assms by (simp add: follows_def)

lemma follows_for_each:
  assumes "preorder_rel R" and "\<And>x. follows R (body x)"
  shows "follows R (for_each xs body)"
proof (induction xs)
  case Nil
  have "for_each [] body = (\<lambda>s. (Returned, s))" by (rule ext) simp
  then show ?case using follows_return [OF assms(1)] by simp
next
  case (Cons x xs)
  have "for_each (x # xs) body = (\<lambda>s. case body x s of (Returned, s') \<Rightarrow> for_each xs body s' | r \<Rightarrow> r)"
    by (rule ext) simp
  then show ?case
    using follows_seq [OF assms(1) assms(2) [of x] Cons] by simp
qed


lemma follows_case3:
  assumes "preorder_rel R" and "follows R c" and "follows R d" and "follows R h"
  shows "follows R (\<lambda>s. case c s of (Returned, s1) \<Rightarrow> d s1 | (Raised e, s1) \<Rightarrow> h s1
                          | (Blocked, s1) \<Rightarrow> (Blocked, s1))"
  unfolding follows_def
proof
  fix s
  obtain o1 s1 where c: "c s = (o1, s1)" by (cases "c s")
  have 1: "R s s1" using followsD [OF assms(2), of s] c by simp
  have 2: "R s (snd (d s1))" using preorder_trans [OF assms(1) 1 followsD [OF assms(3)]] .
  have 3: "R s (snd (h s1))" using preorder_trans [OF assms(1) 1 followsD [OF assms(4)]] .
  show "R s (snd (case c s of (Returned, s1) \<Rightarrow> d s1 | (Raised e, s1) \<Rightarrow> h s1
                          | (Blocked, s1) \<Rightarrow> (Blocked, s1)))"
    using c 1 2 3 by (cases o1) simp_all
qed

lemma steady_preorder: "steady R \<Longrightarrow> preorder_rel R"
  by (simp add: steady_def)

lemma steady_frame:
  assumes "steady R"
  shows "time s \<le> t \<Longrightarrow> R s (s\<lparr>time := t\<rparr>)" "R s (s\<lparr>state := st\<rparr>)"
    "R s (s\<lparr>peers := ps\<rparr>)" "R s (s\<lparr>mon := m\<rparr>)" "R s (s\<lparr>trace := trace s @ evs\<rparr>)"
  using assms by (simp_all add: steady_def)

lemma steady_dicts:
  assumes "steady R"
  shows "follows R (request_delitem k)" "follows R (token_setitem tk v)"
    "follows R (token_delitem tk)"
  using assms by (simp_all add: steady_def)

lemma steady_mon_trace:
  assumes "steady R"
  shows "R s (s\<lparr>mon := m, trace := trace s @ evs\<rparr>)"
proof -
  have 1: "R s (s\<lparr>mon := m\<rparr>)" by (rule steady_frame(4) [OF assms])
  have 2: "R (s\<lparr>mon := m\<rparr>) (s\<lparr>mon := m\<rparr>\<lparr>trace := trace (s\<lparr>mon := m\<rparr>) @ evs\<rparr>)"
    by (rule steady_frame(5) [OF assms])
  show ?thesis using preorder_trans [OF steady_preorder [OF assms] 1 2] by simp
qed

lemma steady_peers_trace:
  assumes "steady R"
  shows "R s (s\<lparr>peers := ps, trace := trace s @ evs\<rparr>)"
proof -
  have 1: "R s (s\<lparr>peers := ps\<rparr>)" by (rule steady_frame(3) [OF assms])
  have 2: "R (s\<lparr>peers := ps\<rparr>) (s\<lparr>peers := ps\<rparr>\<lparr>trace := trace (s\<lparr>peers := ps\<rparr>) @ evs\<rparr>)"
    by (rule steady_frame(5) [OF assms])
  show ?thesis using preorder_trans [OF steady_preorder [OF assms] 1 2] by simp
qed

lemma follows_lock_acquire: "steady R \<Longrightarrow> follows R lock_acquire"
  by (simp add: follows_def lock_acquire_def steady_mon_trace)

lemma follows_lock_release: "steady R \<Longrightarrow> follows R lock_release"
  by (simp add: follows_def lock_release_def steady_mon_trace preorder_refl steady_preorder)

lemma follows_lock_notify_all: "steady R \<Longrightarrow> follows R lock_notify_all"
  by (simp add: follows_def lock_notify_all_def steady_frame preorder_refl steady_preorder)

lemma follows_tick: "steady R \<Longrightarrow> follows R tick"
  by (simp add: follows_def tick_def steady_frame)

lemma follows_set_state: "steady R \<Longrightarrow> follows R (set_state st)"
  by (simp add: follows_def set_state_def steady_frame)

lemma follows_peer_list_unregister_peer: "steady R \<Longrightarrow> follows R (peer_list_unregister_peer p)"
  by (simp add: follows_def peer_list_unregister_peer_def steady_peers_trace)

lemma follows_call_obtain_token: "steady R \<Longrightarrow> follows R (call_obtain_token up p)"
  by (simp add: follows_def call_obtain_token_def steady_frame preorder_refl steady_preorder
      split: option.splits)

lemmas follows_prims = follows_lock_acquire follows_lock_release follows_lock_notify_all
  follows_tick follows_set_state follows_peer_list_unregister_peer follows_call_obtain_token
  steady_dicts

lemma follows_release_loop:
  assumes st: "steady R"
  shows "follows R (release_loop up ps)"
proof (induction ps)
  case Nil
  have "release_loop up [] = (\<lambda>s. (Returned, s))" by (rule ext) simp
  then show ?case using follows_return [OF steady_preorder [OF st]] by simp
next
  case (Cons p ps)
  note pre = steady_preorder [OF st]
  let ?send = "block [lock_release, call_obtain_token up p]"
  let ?ok = "block [lock_acquire, set_state NO_TOKEN]"
  let ?evict = "block [set_state TOKEN_PRESENT, request_delitem p, token_delitem (PInt p),
                       peer_list_unregister_peer p]"
  let ?handler = "\<lambda>s1. case ?evict s1 of (Returned, s2) \<Rightarrow> release_loop up ps s2 | r \<Rightarrow> r"
  let ?branch = "\<lambda>s. case ?send s of (Returned, s1) \<Rightarrow> ?ok s1 | (Raised e, s1) \<Rightarrow> ?handler s1
                          | (Blocked, s1) \<Rightarrow> (Blocked, s1)"
  have send: "follows R ?send" by (rule follows_block [OF pre]) (simp add: follows_prims [OF st])
  have ok: "follows R ?ok" by (rule follows_block [OF pre]) (simp add: follows_prims [OF st])
  have evict: "follows R ?evict" by (rule follows_block [OF pre]) (simp add: follows_prims [OF st])
  have handler: "follows R ?handler" by (rule follows_seq [OF pre evict Cons])
  have branch: "follows R ?branch" by (rule follows_case3 [OF pre send ok handler])
  show ?case
    unfolding follows_def
  proof
    fix s
    have b: "R s (snd (?branch s))" by (rule followsD [OF branch])
    have r: "R s (snd (release_loop up ps s))" by (rule followsD [OF Cons])
    show "R s (snd (release_loop up (p # ps) s))"
      using b r preorder_refl [OF pre, of s]
      by (simp split: sum.splits pyval.splits)
  qed
qed

section \<open>release keeps every steady relation\<close>

lemma follows_release:
  assumes st: "steady R"
  shows "follows R (release up)"
proof -
  note pre = steady_preorder [OF st]
  have held: "follows R (\<lambda>s. if state s = TOKEN_HELD
            then block [token_setitem (PInt (owner_id s)) (PInt (time s)),
                        set_state TOKEN_PRESENT] s
            else (Returned, s))"
    unfolding follows_def
  proof
    fix s :: lock_state
    have "follows R (block [token_setitem (PInt (owner_id s)) (PInt (time s)), set_state TOKEN_PRESENT])"
      by (rule follows_block [OF pre]) (simp add: follows_prims [OF st])
    then have "R s (snd (block [token_setitem (PInt (owner_id s)) (PInt (time s)),
                                  set_state TOKEN_PRESENT] s))"
      by (rule followsD)
    then show "R s (snd (if state s = TOKEN_HELD
            then block [token_setitem (PInt (owner_id s)) (PInt (time s)),
                        set_state TOKEN_PRESENT] s
            else (Returned, s)))"
      using preorder_refl [OF pre, of s] by (simp del: block.simps)
  qed
  have present: "follows R (\<lambda>s. if state s = TOKEN_PRESENT
            then try_finally
                   (try_except (release_loop up (get_order (owner_id s) (get_peers s))) skip)
                   lock_release s
            else (Returned, s))"
    unfolding follows_def
  proof
    fix s :: lock_state
    have "follows R (try_finally
                   (try_except (release_loop up (get_order (owner_id s) (get_peers s))) skip)
                   lock_release)"
      by (intro follows_try_finally [OF pre] follows_try_except [OF pre]
          follows_release_loop [OF st] follows_skip [OF pre] follows_lock_release [OF st])
    then have "R s (snd (try_finally
                   (try_except (release_loop up (get_order (owner_id s) (get_peers s))) skip)
                   lock_release s))"
      by (rule followsD)
    then show "R s (snd (if state s = TOKEN_PRESENT
            then try_finally
                   (try_except (release_loop up (get_order (owner_id s) (get_peers s))) skip)
                   lock_release s
            else (Returned, s)))"
      using preorder_refl [OF pre, of s] by simp
  qed
  show ?thesis
    unfolding release_def
    by (rule follows_block [OF pre]) (simp add: follows_prims [OF st] held present)
qed

section \<open>What release keeps of a stored request\<close>

lemma dict_get_del:
  "dict_del d k = Inr d' \<Longrightarrow> dict_get d' q = (if q = k then Inl KeyError else dict_get d q)"
  by (auto simp: dict_del_def dict_get_def delete_conv' split: if_splits)

lemma steady_request_kept: "steady (request_kept q)"
  unfolding steady_def
proof (intro conjI allI)
  show "preorder_rel (request_kept q)"
    unfolding preorder_rel_def request_kept_def by auto
  show "follows (request_kept q) (request_delitem k)" for k
    unfolding follows_def request_kept_def request_delitem_def
    by (auto split: sum.splits simp: dict_get_del)
  show "follows (request_kept q) (token_setitem k v)" for k v
    unfolding follows_def request_kept_def token_setitem_def
    by (auto split: option.splits)
  show "follows (request_kept q) (token_delitem k)" for k
    unfolding follows_def request_kept_def token_delitem_def
    by (auto split: option.splits sum.splits)
qed (simp_all add: request_kept_def)

section \<open>Every operation keeps every steady relation\<close>

lemma follows_merge_loop:
  assumes st: "steady R"
  shows "follows R (merge_loop msg)"
proof (induction msg)
  case Nil
  have "merge_loop [] = (\<lambda>s. (Returned, s))" by (rule ext) simp
  then show ?case using follows_return [OF steady_preorder [OF st]] by simp
next
  case (Cons e es)
  note pre = steady_preorder [OF st]
  show ?case
    unfolding follows_def
  proof
    fix s :: lock_state
    obtain o1 s1 where c: "token_setitem (fst e) (snd e) s = (o1, s1)"
      by (cases "token_setitem (fst e) (snd e) s")
    have 1: "R s s1" using followsD [OF steady_dicts(2) [OF st], of s "fst e" "snd e"] c by simp
    have 2: "R s (snd (merge_loop es (s1\<lparr>time := t\<rparr>)))" if "time s1 \<le> t" for t
      using preorder_trans [OF pre 1]
        preorder_trans [OF pre steady_frame(1) [OF st that] followsD [OF Cons]] by blast
    show "R s (snd (merge_loop (e # es) s))"
      using c 1 2 by (cases o1; cases "snd e") simp_all
  qed
qed

lemma follows_obtain_token:
  assumes st: "steady R"
  shows "follows R (obtain_token payload)"
proof -
  note pre = steady_preorder [OF st]
  have m: "follows R (\<lambda>s. case unprepare payload of
                 Inl e \<Rightarrow> (Raised e, s)
               | Inr msg \<Rightarrow> merge_loop msg s)"
    unfolding follows_def
    using followsD [OF follows_merge_loop [OF st]] preorder_refl [OF pre]
    by (simp split: sum.splits)
  have fin: "follows R (block [set_state TOKEN_PRESENT, lock_notify_all, lock_release])"
    by (rule follows_block [OF pre]) (simp add: follows_prims [OF st])
  show ?thesis
    unfolding obtain_token_def
    by (rule follows_block [OF pre])
      (simp add: follows_prims [OF st] follows_try_finally [OF pre]
        follows_try_except [OF pre] m fin follows_skip [OF pre])
qed

lemma follows_destroy_loop:
  assumes st: "steady R"
  shows "follows R (destroy_loop up ps)"
proof (induction ps)
  case Nil
  have "destroy_loop up [] = (\<lambda>s. (Returned, s))" by (rule ext) simp
  then show ?case using follows_return [OF steady_preorder [OF st]] by simp
next
  case (Cons p ps)
  note pre = steady_preorder [OF st]
  let ?send = "block [lock_release, call_obtain_token up p]"
  let ?ok = "block [lock_acquire, set_state NO_TOKEN]"
  let ?handler = "\<lambda>s1. case lock_acquire s1 of (Returned, s2) \<Rightarrow> destroy_loop up ps s2 | r \<Rightarrow> r"
  have send: "follows R ?send" by (rule follows_block [OF pre]) (simp add: follows_prims [OF st])
  have ok: "follows R ?ok" by (rule follows_block [OF pre]) (simp add: follows_prims [OF st])
  have handler: "follows R ?handler"
    by (rule follows_seq [OF pre follows_lock_acquire [OF st] Cons])
  have "destroy_loop up (p # ps) =
      (\<lambda>s. case ?send s of (Returned, s1) \<Rightarrow> ?ok s1 | (Raised e, s1) \<Rightarrow> ?handler s1
                          | (Blocked, s1) \<Rightarrow> (Blocked, s1))"
    by (rule ext) (simp del: block.simps)
  then show ?case using follows_case3 [OF pre send ok handler] by simp
qed

lemma follows_guard:
  assumes "preorder_rel R" and "\<And>s. follows R (c s)"
  shows "follows R (\<lambda>s. if g s then c s s else (Returned, s))"
  unfolding follows_def
  using followsD [OF assms(2)] preorder_refl [OF assms(1)] by simp

lemma follows_destroy:
  assumes st: "steady R"
  shows "follows R (destroy up)"
proof -
  note pre = steady_preorder [OF st]
  have a: "follows R (\<lambda>s. if state s \<noteq> NO_TOKEN
            then block [lock_release, release up, lock_acquire] s
            else (Returned, s))"
    by (rule follows_guard [OF pre, where c = "\<lambda>s. block [lock_release, release up, lock_acquire]"])
      (rule follows_block [OF pre], simp add: follows_prims [OF st] follows_release [OF st])
  have b: "follows R (\<lambda>s. if state s = TOKEN_PRESENT
            then destroy_loop up (get_order (owner_id s) (get_peers s)) s
            else (Returned, s))"
    by (rule follows_guard [OF pre, where c = "\<lambda>s. destroy_loop up (get_order (owner_id s) (get_peers s))"])
      (rule follows_destroy_loop [OF st])
  show ?thesis
    unfolding destroy_def
    by (rule follows_block [OF pre]) (simp add: follows_prims [OF st] a b)
qed


lemma follows_call_request_token:
  assumes st: "steady R"
  shows "follows R (call_request_token reply p)"
  unfolding follows_def
proof
  fix s :: lock_state
  note pre = steady_preorder [OF st]
  let ?s1 = "\<lambda>b. s\<lparr>trace := trace s @ [RequestTokenCall p (time s) (owner_id s) b]\<rparr>"
  have 1: "R s (?s1 b)" for b by (rule steady_frame(5) [OF st])
  have 2: "R s (snd (obtain_token payload (?s1 True)))" for payload
    by (rule preorder_trans [OF pre 1 followsD [OF follows_obtain_token [OF st]]])
  show "R s (snd (call_request_token reply p s))"
    using 1 2 by (cases "reply p") (simp_all add: call_request_token_def)
qed

lemma follows_acquire_loop:
  assumes st: "steady R"
  shows "follows R (acquire_loop reply ps)"
proof (induction ps)
  case Nil
  have "acquire_loop reply [] = (\<lambda>s. (Returned, s))" by (rule ext) simp
  then show ?case using follows_return [OF steady_preorder [OF st]] by simp
next
  case (Cons p ps)
  note pre = steady_preorder [OF st]
  let ?body = "try_finally
             (try_except
               (block [lock_release, call_request_token reply p])
               (block [lock_acquire,
                       request_delitem p,
                       token_delitem (PInt p),
                       peer_list_unregister_peer p,
                       lock_release]))
             lock_acquire"
  have call: "follows R (block [lock_release, call_request_token reply p])"
    by (rule follows_block [OF pre]) (simp add: follows_prims [OF st] follows_call_request_token [OF st])
  have evict: "follows R (block [lock_acquire, request_delitem p, token_delitem (PInt p),
                       peer_list_unregister_peer p, lock_release])"
    by (rule follows_block [OF pre]) (simp add: follows_prims [OF st])
  have body: "follows R ?body"
    by (intro follows_try_finally [OF pre] follows_try_except [OF pre] call evict
        follows_lock_acquire [OF st])
  have "acquire_loop reply (p # ps) =
      (\<lambda>s. case ?body s of (Returned, s') \<Rightarrow> acquire_loop reply ps s' | r \<Rightarrow> r)"
    by (rule ext) (simp del: block.simps)
  then show ?case using follows_seq [OF pre body Cons] by simp
qed

lemma follows_acquire_wait:
  assumes st: "steady R"
  shows "follows R (acquire_wait late)"
proof (induction late)
  case Nil
  show ?case
    unfolding follows_def
    by (simp add: preorder_refl [OF steady_preorder [OF st]] steady_frame(5) [OF st])
next
  case (Cons payload late)
  note pre = steady_preorder [OF st]
  show ?case
    unfolding follows_def
  proof
    fix s :: lock_state
    let ?s1 = "s\<lparr>mon := 0, trace := trace s @ [Wait]\<rparr>"
    let ?s2 = "snd (obtain_token payload ?s1)"
    let ?s3 = "?s2\<lparr>mon := mon s\<rparr>"
    have 1: "R s ?s1" by (rule steady_mon_trace [OF st])
    have 2: "R ?s1 ?s2" by (rule followsD [OF follows_obtain_token [OF st]])
    have 3: "R ?s2 ?s3" by (rule steady_frame(4) [OF st])
    have 4: "R ?s3 (snd (acquire_wait late ?s3))" by (rule followsD [OF Cons])
    have "R s (snd (acquire_wait late ?s3))"
      using preorder_trans [OF pre 1 preorder_trans [OF pre 2 preorder_trans [OF pre 3 4]]] .
    then show "R s (snd (acquire_wait (payload # late) s))"
      using preorder_refl [OF pre, of s] by simp
  qed
qed

lemma follows_acquire:
  assumes st: "steady R"
  shows "follows R (acquire reply late)"
proof -
  note pre = steady_preorder [OF st]
  have a: "follows R (\<lambda>s. if state s = NO_TOKEN
            then block [acquire_loop reply (get_peers s), acquire_wait late] s
            else (Returned, s))"
    by (rule follows_guard [OF pre, where c = "\<lambda>s. block [acquire_loop reply (get_peers s), acquire_wait late]"])
      (rule follows_block [OF pre], simp add: follows_acquire_loop [OF st] follows_acquire_wait [OF st])
  have b: "follows R (\<lambda>s. token_setitem (PInt (owner_id s)) (PInt (time s)) s)"
    unfolding follows_def using followsD [OF steady_dicts(2) [OF st]] by simp
  show ?thesis
    unfolding acquire_def
    by (rule follows_block [OF pre]) (simp add: follows_prims [OF st] a b)
qed

lemma follows_unregister_peer: "steady R \<Longrightarrow> follows R (unregister_peer pid)"
  unfolding unregister_peer_def
  by (rule follows_block [OF steady_preorder]) (simp_all add: follows_prims)

lemma follows_display_status: "steady R \<Longrightarrow> follows R display_status"
  unfolding display_status_def
  by (rule follows_block [OF steady_preorder])
    (simp_all add: follows_prims follows_try_finally [OF steady_preorder] follows_skip [OF steady_preorder])

text \<open>The operations that assign into \<open>request\<close> keep a steady relation that such an
  assignment keeps.\<close>

lemma follows_register_peer:
  assumes st: "steady R" and rs: "\<And>k. follows R (request_setitem k 0)"
  shows "follows R (register_peer pid)"
  unfolding register_peer_def
  by (rule follows_block [OF steady_preorder [OF st]]) (simp add: follows_prims [OF st] rs)

lemma follows_request_token:
  assumes st: "steady R"
    and rs: "\<And>s k r. dict_get (request s) k = Inr r \<Longrightarrow>
               R s (snd (request_setitem k (max r (time s)) s))"
  shows "follows R (request_token up t pid)"
proof -
  note pre = steady_preorder [OF st]
  have a: "follows R (assign (\<lambda>s. s\<lparr>time := max (time s + 1) (t + 1)\<rparr>))"
    by (simp add: follows_def assign_def steady_frame(1) [OF st])
  have b: "follows R (\<lambda>s. case dict_get (request s) pid of
              Inl e \<Rightarrow> (Raised e, s)
            | Inr r \<Rightarrow> request_setitem pid (max r (time s)) s)"
    unfolding follows_def using rs preorder_refl [OF pre]
    by (simp split: sum.splits)
  have u: "follows R (request_token_update t pid)"
    unfolding request_token_update_def
    by (rule follows_block [OF pre]) (simp add: follows_prims [OF st] a b)
  have c: "follows R (\<lambda>s. if state s = TOKEN_PRESENT then release up s else (Returned, s))"
    by (rule follows_guard [OF pre, where c = "\<lambda>s. release up"]) (rule follows_release [OF st])
  show ?thesis
    unfolding request_token_def
    by (rule follows_block [OF pre]) (simp add: u c)
qed

section \<open>initialize and the token dictionary\<close>

lemma steady_token_kept: "steady token_kept"
  unfolding steady_def
proof (intro conjI allI)
  show "preorder_rel token_kept"
    unfolding preorder_rel_def token_kept_def by auto
  show "follows token_kept (request_delitem k)" for k
    unfolding follows_def token_kept_def request_delitem_def
    by (auto split: sum.splits)
  show "follows token_kept (token_setitem k v)" for k v
    unfolding follows_def token_kept_def token_setitem_def
    by (auto split: option.splits)
  show "follows token_kept (token_delitem k)" for k
    unfolding follows_def token_kept_def token_delitem_def
    by (auto split: option.splits sum.splits)
qed (simp_all add: token_kept_def)

lemma token_kept_request_setitem: "follows token_kept (request_setitem k v)"
  by (simp add: follows_def token_kept_def request_setitem_def)

lemma for_each_init:
  assumes "token s = Some d"
  shows "for_each ps (\<lambda>peer. block [request_setitem peer 0, token_setitem (PInt peer) (PInt 0)]) s =
     (Returned, s\<lparr>request := fold (\<lambda>p r. dict_set r p 0) ps (request s),
                  token := Some (fold (\<lambda>p t. dict_set t (PInt p) (PInt 0)) ps d)\<rparr>)"
  using assms
proof (induction ps arbitrary: s d)
  case Nil
  then show ?case by simp
next
  case (Cons p ps)
  let ?s1 = "s\<lparr>request := dict_set (request s) p 0, token := Some (dict_set d (PInt p) (PInt 0))\<rparr>"
  have step: "block [request_setitem p 0, token_setitem (PInt p) (PInt 0)] s = (Returned, ?s1)"
    using Cons.prems by (simp add: stmt_defs)
  have "token ?s1 = Some (dict_set d (PInt p) (PInt 0))" by simp
  from Cons.IH [OF this] step show ?case by (simp del: block.simps)
qed

lemma initialized_eq:
  "initialized own ps =
     \<lparr>owner_id = own, peers = ps, time = 0,
      token = Some (fold (\<lambda>p t. dict_set t (PInt p) (PInt 0)) ps [(PInt own, PInt 0)]),
      request = fold (\<lambda>p r. dict_set r p 0) ps [(own, 0)],
      state = (if ps = [] then TOKEN_PRESENT else NO_TOKEN),
      mon = 0, trace = [Acquire, Release]\<rparr>"
proof -
  let ?s2 = "\<lparr>owner_id = own, peers = ps, time = 0, token = Some [(PInt own, PInt 0)],
              request = [(own, 0)], state = NO_TOKEN, mon = Suc 0, trace = [Acquire]\<rparr>"
  have t: "token ?s2 = Some [(PInt own, PInt 0)]" by simp
  show ?thesis
    unfolding initialized_def initialize_def init_lock_def
    using for_each_init [OF t, of ps]
    by (cases "ps = []") (simp_all add: stmt_defs dict_set_def del: for_each.simps)
qed

lemma map_of_fold_zero:
  "map_of (fold (\<lambda>p t. dict_set t (PInt p) (PInt 0)) ps d) k =
     (if k \<in> PInt ` set ps then Some (PInt 0) else map_of d k)"
  by (induction ps arbitrary: d) (auto simp: dict_set_def update_conv')

lemma reachable_token_defined: "reachable s \<Longrightarrow> token s \<noteq> None"
proof (induction rule: reachable.induct)
  case (r_initialize own ps)
  show ?case using initialized_eq [of own ps] by (simp add: initialized_def)
next
  case (r_membership s ps)
  then show ?case by simp
next
  case (r_register_peer s pid)
  then show ?case
    using followsD [OF follows_register_peer [OF steady_token_kept token_kept_request_setitem], of s pid]
    by (simp add: token_kept_def)
next
  case (r_unregister_peer s pid)
  then show ?case
    using followsD [OF follows_unregister_peer [OF steady_token_kept], of s pid]
    by (simp add: token_kept_def)
next
  case (r_acquire s reply late)
  then show ?case
    using followsD [OF follows_acquire [OF steady_token_kept], of s reply late]
    by (simp add: token_kept_def)
next
  case (r_release s up)
  then show ?case
    using followsD [OF follows_release [OF steady_token_kept], of s up]
    by (simp add: token_kept_def)
next
  case (r_request_token s up t pid)
  then show ?case
    using followsD [OF follows_request_token [OF steady_token_kept
            followsD [OF token_kept_request_setitem]], of s up t pid]
    by (simp add: token_kept_def)
next
  case (r_obtain_token s payload)
  then show ?case
    using followsD [OF follows_obtain_token [OF steady_token_kept], of s payload]
    by (simp add: token_kept_def)
next
  case (r_destroy s up)
  then show ?case
    using followsD [OF follows_destroy [OF steady_token_kept], of s up]
    by (simp add: token_kept_def)
next
  case (r_display_status s)
  then show ?case
    using followsD [OF follows_display_status [OF steady_token_kept], of s]
    by (simp add: token_kept_def)
qed

text \<open>
  C1 as stated fails: \<open>initialize()\<close> on peer 1 with the other member 2 leaves the state
  \<open>NO_TOKEN\<close> and the token dictionary defined, \<open>{1: 0, 2: 0}\<close>; so the token is
  defined in a reachable state that is neither \<open>TOKEN_PRESENT\<close> nor \<open>TOKEN_HELD\<close>.
\<close>

theorem initialize_token_counterexample:
  "reachable (initialized 1 [2]) \<and> state (initialized 1 [2]) = NO_TOKEN \<and>
   token (initialized 1 [2]) = Some [(PInt 1, PInt 0), (PInt 2, PInt 0)]"
proof -
  have r: "reachable (initialized 1 [2])"
    unfolding initialized_def by (rule reachable.r_initialize)
  show ?thesis using r by (simp add: initialized_eq dict_set_def)
qed

text \<open>
  C1, amended. After \<open>initialize()\<close> on a peer whose membership contains other peers,
  the state is \<open>NO_TOKEN\<close> and the token dictionary is defined, with the value 0 for the
  own id and for every member and no other key; after \<open>initialize()\<close> on a peer with no
  other members, the state is \<open>TOKEN_PRESENT\<close> and the token is \<open>{own_id: 0}\<close>; and in
  every state reachable by the public operations the token dictionary is defined,
  whatever the state.
\<close>

theorem initialize_defines_token:
  "(ps \<noteq> [] \<longrightarrow>
      state (initialized own ps) = NO_TOKEN \<and>
      (\<exists>tk. token (initialized own ps) = Some tk \<and>
            (\<forall>k. dict_get tk k =
                 (if k \<in> PInt ` insert own (set ps) then Inr (PInt 0) else Inl KeyError)))) \<and>
   state (initialized own []) = TOKEN_PRESENT \<and>
   token (initialized own []) = Some [(PInt own, PInt 0)] \<and>
   (\<forall>s. reachable s \<longrightarrow> token s \<noteq> None)"
  by (auto simp: initialized_eq dict_get_def map_of_fold_zero reachable_token_defined)

theorem initialize_defines_token_witness:
  "[2::int] \<noteq> [] \<and> state (initialized 1 [2]) = NO_TOKEN \<and>
   reachable (initialized 1 [2]) \<and> token (initialized 1 [2]) \<noteq> None"
proof -
  have r: "reachable (initialized 1 [2])"
    unfolding initialized_def by (rule reachable.r_initialize)
  show ?thesis
    using initialize_defines_token [of "[2]" 1] r by simp
qed

section \<open>Repeated requests\<close>

lemma set_dict_set: "set (dict_set d k v) \<subseteq> insert (k, v) (set d)"
  unfolding dict_set_def by (induction d) auto

lemma set_dict_del: "dict_del d k = Inr d' \<Longrightarrow> set d' \<subseteq> set d"
  by (auto simp: dict_del_def AList.delete_eq split: if_splits)

lemma dict_get_mem: "dict_get d k = Inr v \<Longrightarrow> (k, v) \<in> set d"
  by (auto simp: dict_get_def split: option.splits dest: map_of_SomeD)

lemma steady_bound_kept: "steady bound_kept"
  unfolding steady_def
proof (intro conjI allI)
  show "preorder_rel bound_kept"
    unfolding preorder_rel_def bound_kept_def by auto
  show "follows bound_kept (request_delitem k)" for k
    unfolding follows_def bound_kept_def request_delitem_def request_bounded_def
    by (auto split: sum.splits dest: set_dict_del)
  show "follows bound_kept (token_setitem k v)" for k v
    unfolding follows_def bound_kept_def token_setitem_def request_bounded_def
    by (auto split: option.splits)
  show "follows bound_kept (token_delitem k)" for k
    unfolding follows_def bound_kept_def token_delitem_def request_bounded_def
    by (auto split: option.splits sum.splits)
qed (auto simp: bound_kept_def request_bounded_def)

lemma bound_kept_request_zero: "follows bound_kept (request_setitem k 0)"
  unfolding follows_def bound_kept_def request_setitem_def request_bounded_def
  using set_dict_set by fastforce

lemma bound_kept_request_max:
  assumes "dict_get (request s) k = Inr r"
  shows "bound_kept s (snd (request_setitem k (max r (time s)) s))"
proof -
  have "request_bounded s \<Longrightarrow> r \<le> time s"
    using dict_get_mem [OF assms] by (auto simp: request_bounded_def)
  then show ?thesis
    unfolding bound_kept_def request_setitem_def request_bounded_def
    using set_dict_set [of "request s" k "max r (time s)"] by fastforce
qed

lemma fold_zero_values:
  "\<forall>kv \<in> set d. snd kv = (0::int) \<Longrightarrow>
   \<forall>kv \<in> set (fold (\<lambda>p r. dict_set r p 0) ps d). snd kv = 0"
proof (induction ps arbitrary: d)
  case Nil
  then show ?case by simp
next
  case (Cons p ps)
  have "\<forall>kv \<in> set (dict_set d p 0). snd kv = 0"
    using Cons.prems set_dict_set [of d p 0] by fastforce
  from Cons.IH [OF this] show ?case by simp
qed

lemma initialized_request_bounded: "request_bounded (initialized own ps)"
  using fold_zero_values [of "[(own, 0)]" ps]
  by (simp add: request_bounded_def initialized_eq)

lemma reachable_request_bounded: "reachable s \<Longrightarrow> request_bounded s"
proof (induction rule: reachable.induct)
  case (r_initialize own ps)
  show ?case using initialized_request_bounded [of own ps] by (simp add: initialized_def)
next
  case (r_membership s ps)
  then show ?case by (simp add: request_bounded_def)
next
  case (r_register_peer s pid)
  then show ?case
    using followsD [OF follows_register_peer [OF steady_bound_kept bound_kept_request_zero], of s pid]
    by (simp add: bound_kept_def)
next
  case (r_unregister_peer s pid)
  then show ?case
    using followsD [OF follows_unregister_peer [OF steady_bound_kept], of s pid]
    by (simp add: bound_kept_def)
next
  case (r_acquire s reply late)
  then show ?case
    using followsD [OF follows_acquire [OF steady_bound_kept], of s reply late]
    by (simp add: bound_kept_def)
next
  case (r_release s up)
  then show ?case
    using followsD [OF follows_release [OF steady_bound_kept], of s up]
    by (simp add: bound_kept_def)
next
  case (r_request_token s up t pid)
  then show ?case
    using followsD [OF follows_request_token [OF steady_bound_kept bound_kept_request_max], of s up t pid]
    by (simp add: bound_kept_def)
next
  case (r_obtain_token s payload)
  then show ?case
    using followsD [OF follows_obtain_token [OF steady_bound_kept], of s payload]
    by (simp add: bound_kept_def)
next
  case (r_destroy s up)
  then show ?case
    using followsD [OF follows_destroy [OF steady_bound_kept], of s up]
    by (simp add: bound_kept_def)
next
  case (r_display_status s)
  then show ?case
    using followsD [OF follows_display_status [OF steady_bound_kept], of s]
    by (simp add: bound_kept_def)
qed

text \<open>
  C3 as stated fails: on peer 1 just initialised with the other member 2, a first
  \<open>request_token(1, 2)\<close> stores \<open>request[2] = 2\<close>, which exceeds \<open>t = 1\<close>, and calling
  \<open>request_token(1, 2)\<close> again changes \<open>request[2]\<close> to 3: the value stored is the
  receiver's new clock, not the time of the request.
\<close>

theorem request_token_not_idempotent_counterexample:
  "reachable (initialized 1 [2]) \<and>
   dict_get (request (snd (request_token all_up 1 2 (initialized 1 [2])))) 2 = Inr 2 \<and>
   (1::int) < 2 \<and>
   dict_get (request (snd (request_token all_up 1 2
      (snd (request_token all_up 1 2 (initialized 1 [2])))))) 2 = Inr 3"
proof -
  have r: "reachable (initialized 1 [2])"
    unfolding initialized_def by (rule reachable.r_initialize)
  show ?thesis
    using r
    by (simp add: initialized_eq request_token_unfold request_token_update_def stmt_defs
        dict_get_def dict_set_def)
qed

text \<open>
  C3, amended. \<open>request_token(t, pid)\<close> is not idempotent in \<open>request[pid]\<close>: in every
  reachable lock state with \<open>pid\<close> in \<open>request\<close>, the stored value is at most the clock,
  the update step of \<open>request_token(t, pid)\<close> replaces it by the new clock
  \<open>max(clock + 1, t + 1)\<close>, which is strictly greater than the stored value, and after
  the whole call \<open>request[pid]\<close> is that new clock, unless the \<open>release()\<close> the call
  invokes has removed \<open>pid\<close> from \<open>request\<close> after a failed send.
\<close>

theorem request_token_raises_request:
  assumes "reachable s" and "dict_get (request s) pid = Inr r"
  shows "r \<le> time s \<and>
         dict_get (request (snd (request_token_update t pid s))) pid =
           Inr (max (time s + 1) (t + 1)) \<and>
         r < max (time s + 1) (t + 1) \<and>
         (dict_get (request (snd (request_token up t pid s))) pid =
            Inr (max (time s + 1) (t + 1)) \<or>
          dict_get (request (snd (request_token up t pid s))) pid = Inl KeyError)"
proof -
  let ?c = "max (time s + 1) (t + 1)"
  let ?s1 = "s\<lparr>time := ?c, request := dict_set (request s) pid (max r ?c),
               trace := trace s @ [Acquire, Release]\<rparr>"
  have b: "r \<le> time s"
    using reachable_request_bounded [OF assms(1)] dict_get_mem [OF assms(2)]
    by (auto simp: request_bounded_def)
  then have m: "max r ?c = ?c" by simp
  have u: "request_token_update t pid s = (Returned, ?s1)"
    by (rule request_token_update_eq [OF assms(2)])
  have g: "dict_get (request ?s1) pid = Inr ?c" by (simp add: m dict_get_set_same)
  have k: "request_kept pid ?s1 (snd (release up ?s1))"
    by (rule followsD [OF follows_release [OF steady_request_kept]])
  have "request_token up t pid s = (if state ?s1 = TOKEN_PRESENT then release up ?s1 else (Returned, ?s1))"
    by (simp add: request_token_unfold u)
  then show ?thesis using u g k b by (auto simp: request_kept_def)
qed

theorem request_token_raises_request_witness:
  "reachable (initialized 1 [2]) \<and>
   dict_get (request (initialized 1 [2])) 2 = Inr 0 \<and>
   (0::int) \<le> time (initialized 1 [2]) \<and>
   dict_get (request (snd (request_token_update 1 2 (initialized 1 [2])))) 2 = Inr 2 \<and>
   (0::int) < 2 \<and>
   (dict_get (request (snd (request_token all_up 1 2 (initialized 1 [2])))) 2 = Inr 2 \<or>
    dict_get (request (snd (request_token all_up 1 2 (initialized 1 [2])))) 2 = Inl KeyError)"
proof -
  have r: "reachable (initialized 1 [2])"
    unfolding initialized_def by (rule reachable.r_initialize)
  have h: "dict_get (request (initialized 1 [2])) 2 = Inr 0"
    by (simp add: initialized_eq dict_get_def dict_set_def)
  have t: "time (initialized 1 [2]) = 0" by (simp add: initialized_eq)
  show ?thesis
    using request_token_raises_request [OF r h, of 1 all_up] r h t by simp
qed

section \<open>The hand-off order and the first candidate\<close>

lemma steady_trace_kept: "steady trace_kept"
  unfolding steady_def
proof (intro conjI allI)
  show "preorder_rel trace_kept"
    unfolding preorder_rel_def trace_kept_def by auto
  show "follows trace_kept (request_delitem k)" for k
    unfolding follows_def trace_kept_def request_delitem_def
    by (auto split: sum.splits)
  show "follows trace_kept (token_setitem k v)" for k v
    unfolding follows_def trace_kept_def token_setitem_def
    by (auto split: option.splits)
  show "follows trace_kept (token_delitem k)" for k
    unfolding follows_def trace_kept_def token_delitem_def
    by (auto split: option.splits sum.splits)
qed (simp_all add: trace_kept_def)

lemma token_holder_eq:
  "token_holder =
     \<lparr>owner_id = 1, peers = [2, 3], time = 3,
      token = Some [(PInt 1, PInt 3), (PInt 2, PInt 0), (PInt 3, PInt 0)],
      request = [(1, 0), (2, 0), (3, 0)], state = TOKEN_HELD, mon = 0,
      trace = [Acquire, Release, Acquire, Release, Acquire, Release, Acquire, Release]\<rparr>"
  by (simp add: token_holder_def initialized_eq acquire_def register_peer_def stmt_defs dict_set_def)

lemma reachable_token_holder: "reachable token_holder"
  unfolding token_holder_def initialized_def
  by (intro reachable.r_acquire reachable.r_register_peer reachable.r_membership
      reachable.r_initialize)

lemma token_holder_requested:
  "snd (request_token all_up 5 q token_holder) =
     token_holder\<lparr>time := 6, request := dict_set [(1, 0), (2, 0), (3, 0)] q 6,
                   trace := trace token_holder @ [Acquire, Release]\<rparr>"
  if "q = 2 \<or> q = 3"
  using that
  by (auto simp: request_token_unfold request_token_update_def stmt_defs token_holder_eq dict_get_def dict_set_def)

lemma get_order_loop_eq:
  "get_order_loop own ps higher lower =
     (higher @ filter (\<lambda>p. own < p) ps, lower @ filter (\<lambda>p. p < own) ps)"
  by (induction ps arbitrary: higher lower) auto

lemma get_order_eq:
  "get_order own ps = filter (\<lambda>p. own < p) ps @ filter (\<lambda>p. p < own) ps"
  by (simp add: get_order_def get_order_loop_eq)

lemma get_order_not_own: "own \<notin> set (get_order own ps)"
  by (simp add: get_order_eq)

lemma release_loop_skip:
  assumes "token s = Some tk"
    and "\<forall>q \<in> set pre. \<exists>rq tq. dict_get (request s) q = Inr rq \<and>
              dict_get tk (PInt q) = Inr (PInt tq) \<and> rq \<le> tq"
  shows "release_loop up (pre @ ps) s = release_loop up ps s"
  using assms(2)
proof (induction pre)
  case Nil
  then show ?case by simp
next
  case (Cons q pre)
  then obtain rq tq where "dict_get (request s) q = Inr rq"
    "dict_get tk (PInt q) = Inr (PInt tq)" "rq \<le> tq" by auto
  then show ?case using Cons assms(1) by (simp add: token_getitem_def del: block.simps)
qed

lemma release_loop_send:
  assumes "token s = Some tk" and "dict_get (request s) p = Inr r"
    and "dict_get tk (PInt p) = Inr (PInt t)" and "t < r" and "mon s = Suc m"
  shows "up p \<Longrightarrow> release_loop up (p # post) s =
           (Returned, s\<lparr>state := NO_TOKEN,
                        trace := trace s @ [Release, ObtainTokenCall p (prepare tk) True, Acquire]\<rparr>)"
    and "prefix (trace s @ [Release, ObtainTokenCall p (prepare tk) (up p)])
           (trace (snd (release_loop up (p # post) s)))"
proof -
  show "release_loop up (p # post) s =
           (Returned, s\<lparr>state := NO_TOKEN,
                        trace := trace s @ [Release, ObtainTokenCall p (prepare tk) True, Acquire]\<rparr>)"
    if "up p"
    using assms that by (simp add: stmt_defs call_obtain_token_def)
  show "prefix (trace s @ [Release, ObtainTokenCall p (prepare tk) (up p)])
           (trace (snd (release_loop up (p # post) s)))"
  proof (cases "up p")
    case True
    then show ?thesis using assms by (simp add: stmt_defs call_obtain_token_def)
  next
    case False
    note pre = steady_preorder [OF steady_trace_kept]
    let ?s1 = "s\<lparr>mon := m, trace := trace s @ [Release, ObtainTokenCall p (prepare tk) False]\<rparr>"
    let ?evict = "block [set_state TOKEN_PRESENT, request_delitem p, token_delitem (PInt p),
                       peer_list_unregister_peer p]"
    let ?handler = "\<lambda>s1. case ?evict s1 of (Returned, s2) \<Rightarrow> release_loop up post s2 | r \<Rightarrow> r"
    have evict: "follows trace_kept ?evict"
      by (rule follows_block [OF pre]) (simp add: follows_prims [OF steady_trace_kept])
    have handler: "follows trace_kept ?handler"
      by (rule follows_seq [OF pre evict follows_release_loop [OF steady_trace_kept]])
    have send: "block [lock_release, call_obtain_token up p] s = (Raised TransportError, ?s1)"
      using assms False by (simp add: stmt_defs call_obtain_token_def)
    have "release_loop up (p # post) s = ?handler ?s1"
      using assms send by (simp add: token_getitem_def del: block.simps)
    then show ?thesis
      using followsD [OF handler, of ?s1] False by (simp add: trace_kept_def del: block.simps)
  qed
qed

lemma try_wrap_kept:
  assumes "preorder_rel R" and "follows R h" and "follows R f"
  shows "R (snd (c s)) (snd (try_finally (try_except c h) f s))"
proof -
  obtain o1 s1 where c: "c s = (o1, s1)" by (cases "c s")
  obtain o2 s2 where h: "h s1 = (o2, s2)" by (cases "h s1")
  have 1: "R s1 s2" using followsD [OF assms(2), of s1] h by simp
  have 2: "R s1 (snd (f s1))" by (rule followsD [OF assms(3)])
  have 3: "R s1 (snd (f s2))" by (rule preorder_trans [OF assms(1) 1 followsD [OF assms(3)]])
  obtain o3 s3 where f1: "f s1 = (o3, s3)" by (cases "f s1")
  obtain o4 s4 where f2: "f s2 = (o4, s4)" by (cases "f s2")
  show ?thesis
    using c h f1 f2 1 2 3 preorder_refl [OF assms(1), of s1]
    by (cases o1; cases o2; cases o3; cases o4) (simp_all add: try_except_def try_finally_def)
qed

lemma block_nil_case:
  "(case x of (Returned, s') \<Rightarrow> block [] s' | r \<Rightarrow> r) = x"
  by (simp split: prod.splits outcome.splits)

lemma release_with_token:
  assumes "state s \<noteq> NO_TOKEN" and "token s = Some tk"
    and "tk' = (if state s = TOKEN_HELD
                then dict_set tk (PInt (owner_id s)) (PInt (time s + 1)) else tk)"
  shows "release up s =
     try_finally
       (try_except (release_loop up (get_order (owner_id s) (get_peers s))) skip)
       lock_release
       (s\<lparr>time := time s + 1, token := Some tk', state := TOKEN_PRESENT,
          mon := Suc (mon s), trace := trace s @ [Acquire]\<rparr>)"
proof (cases "state s = TOKEN_HELD")
  case True
  have e: "s\<lparr>time := time s + 1, token := Some tk', state := TOKEN_PRESENT,
          mon := Suc (mon s), trace := trace s @ [Acquire]\<rparr> =
        s\<lparr>mon := Suc (mon s), trace := trace s @ [Acquire], time := time s + 1,
          token := Some tk', state := TOKEN_PRESENT\<rparr>"
    by (cases s) simp
  show ?thesis
    unfolding e using True assms(2,3)
    by (simp add: release_def stmt_defs block_nil_case del: block.simps(1))
next
  case False
  then have p: "state s = TOKEN_PRESENT" using assms(1) by (cases "state s") simp_all
  have e: "s\<lparr>time := time s + 1, token := Some tk', state := TOKEN_PRESENT,
          mon := Suc (mon s), trace := trace s @ [Acquire]\<rparr> =
        s\<lparr>mon := Suc (mon s), trace := trace s @ [Acquire], time := time s + 1\<rparr>"
    using assms(2,3) p False by (cases s) simp
  show ?thesis
    unfolding e using p by (simp add: release_def stmt_defs block_nil_case del: block.simps(1))
qed


lemma release_first_candidate:
  assumes ns: "state s \<noteq> NO_TOKEN" and tk: "token s = Some tk"
    and tk': "tk' = (if state s = TOKEN_HELD
                then dict_set tk (PInt (owner_id s)) (PInt (time s + 1)) else tk)"
    and ord: "get_order (owner_id s) (get_peers s) = pre @ p # post"
    and pre: "\<forall>q \<in> set pre. \<exists>rq tq. dict_get (request s) q = Inr rq \<and>
              dict_get tk (PInt q) = Inr (PInt tq) \<and> rq \<le> tq"
    and r: "dict_get (request s) p = Inr r" and t: "dict_get tk (PInt p) = Inr (PInt t)"
    and lt: "t < r"
  shows "prefix (trace s @ [Acquire, Release, ObtainTokenCall p (prepare tk') (up p)])
           (trace (snd (release up s)))"
    and "up p \<Longrightarrow> release up s =
           (Returned, s\<lparr>time := time s + 1, token := Some tk', state := NO_TOKEN,
              trace := trace s @ [Acquire, Release, ObtainTokenCall p (prepare tk') True,
                                  Acquire, Release]\<rparr>)"
proof -
  let ?s3 = "s\<lparr>time := time s + 1, token := Some tk', state := TOKEN_PRESENT,
          mon := Suc (mon s), trace := trace s @ [Acquire]\<rparr>"
  let ?order = "get_order (owner_id s) (get_peers s)"
  have own: "\<forall>q \<in> set ?order. q \<noteq> owner_id s"
    using get_order_not_own [of "owner_id s" "get_peers s"] by auto
  have same: "dict_get tk' (PInt q) = dict_get tk (PInt q)" if "q \<in> set ?order" for q
    using own that tk' by (simp add: dict_get_set_other)
  have tk3: "token ?s3 = Some tk'" by simp
  have pre3: "\<forall>q \<in> set pre. \<exists>rq tq. dict_get (request ?s3) q = Inr rq \<and>
              dict_get tk' (PInt q) = Inr (PInt tq) \<and> rq \<le> tq"
    using pre same ord by simp
  have r3: "dict_get (request ?s3) p = Inr r" using r by simp
  have t3: "dict_get tk' (PInt p) = Inr (PInt t)" using t same ord by simp
  have m3: "mon ?s3 = Suc (mon s)" by simp
  have loop: "release_loop up ?order ?s3 = release_loop up (p # post) ?s3"
    unfolding ord by (rule release_loop_skip [OF tk3 pre3])
  have rel: "release up s =
     try_finally (try_except (release_loop up ?order) skip) lock_release ?s3"
    by (rule release_with_token [OF ns tk tk'])
  note st = steady_trace_kept
  have "trace_kept (snd (release_loop up ?order ?s3)) (snd (release up s))"
    unfolding rel
    by (rule try_wrap_kept [OF steady_preorder [OF st] follows_skip [OF steady_preorder [OF st]]
          follows_lock_release [OF st]])
  moreover have "prefix (trace ?s3 @ [Release, ObtainTokenCall p (prepare tk') (up p)])
           (trace (snd (release_loop up ?order ?s3)))"
    unfolding loop by (rule release_loop_send(2) [where up = up, OF tk3 r3 t3 lt m3])
  ultimately show "prefix (trace s @ [Acquire, Release, ObtainTokenCall p (prepare tk') (up p)])
           (trace (snd (release up s)))"
    unfolding trace_kept_def by (auto elim: prefix_order.trans [rotated] simp: prefix_def)
  show "release up s =
           (Returned, s\<lparr>time := time s + 1, token := Some tk', state := NO_TOKEN,
              trace := trace s @ [Acquire, Release, ObtainTokenCall p (prepare tk') True,
                                  Acquire, Release]\<rparr>)" if "up p"
  proof -
    have "release_loop up ?order ?s3 =
           (Returned, ?s3\<lparr>state := NO_TOKEN,
                        trace := trace ?s3 @ [Release, ObtainTokenCall p (prepare tk') True, Acquire]\<rparr>)"
      unfolding loop by (rule release_loop_send(1) [where up = up, OF tk3 r3 t3 lt m3 that])
    then show ?thesis
      unfolding rel by (cases s) (simp add: try_finally_def try_except_def lock_release_def)
  qed
qed

text \<open>
  C2. For every membership list and every own id, the hand-off order is the peer ids
  strictly greater than the own id followed by the peer ids strictly less than it, each
  group in the order of the membership list, hence ascending when the membership list
  is. When \<open>release()\<close> runs with the token (state \<open>TOKEN_HELD\<close> or \<open>TOKEN_PRESENT\<close>)
  and \<open>p\<close> is the first peer in that order with \<open>request[p] > token[p]\<close>, the first
  outbound call of \<open>release()\<close> is \<open>obtain_token\<close> on \<open>p\<close>, carrying the token (with the
  own entry set to the new clock when the token was held); and when that call is
  delivered, \<open>release()\<close> returns right after it with state \<open>NO_TOKEN\<close>, having called no
  other peer and changed nothing else but the clock.
\<close>

theorem release_hands_to_first_candidate:
  "get_order own ps = filter (\<lambda>p. own < p) ps @ filter (\<lambda>p. p < own) ps \<and>
   (sorted ps \<longrightarrow> sorted (filter (\<lambda>p. own < p) ps) \<and> sorted (filter (\<lambda>p. p < own) ps)) \<and>
   (state s \<noteq> NO_TOKEN \<and> token s = Some tk \<and>
    tk' = (if state s = TOKEN_HELD
           then dict_set tk (PInt (owner_id s)) (PInt (time s + 1)) else tk) \<and>
    get_order (owner_id s) (get_peers s) = pre @ p # post \<and>
    (\<forall>q \<in> set pre. \<exists>rq tq. dict_get (request s) q = Inr rq \<and>
        dict_get tk (PInt q) = Inr (PInt tq) \<and> rq \<le> tq) \<and>
    dict_get (request s) p = Inr r \<and> dict_get tk (PInt p) = Inr (PInt t) \<and> t < r \<longrightarrow>
      prefix (trace s @ [Acquire, Release, ObtainTokenCall p (prepare tk') (up p)])
        (trace (snd (release up s))) \<and>
      (up p \<longrightarrow>
         release up s =
           (Returned, s\<lparr>time := time s + 1, token := Some tk', state := NO_TOKEN,
              trace := trace s @ [Acquire, Release, ObtainTokenCall p (prepare tk') True,
                                  Acquire, Release]\<rparr>)))"
proof (intro conjI impI)
  show "get_order own ps = filter (\<lambda>p. own < p) ps @ filter (\<lambda>p. p < own) ps"
    by (rule get_order_eq)
  show "sorted (filter (\<lambda>p. own < p) ps)" if "sorted ps" using that by (rule sorted_wrt_filter)
  show "sorted (filter (\<lambda>p. p < own) ps)" if "sorted ps" using that by (rule sorted_wrt_filter)
next
  assume h: "state s \<noteq> NO_TOKEN \<and> token s = Some tk \<and>
    tk' = (if state s = TOKEN_HELD
           then dict_set tk (PInt (owner_id s)) (PInt (time s + 1)) else tk) \<and>
    get_order (owner_id s) (get_peers s) = pre @ p # post \<and>
    (\<forall>q \<in> set pre. \<exists>rq tq. dict_get (request s) q = Inr rq \<and>
        dict_get tk (PInt q) = Inr (PInt tq) \<and> rq \<le> tq) \<and>
    dict_get (request s) p = Inr r \<and> dict_get tk (PInt p) = Inr (PInt t) \<and> t < r"
  show "prefix (trace s @ [Acquire, Release, ObtainTokenCall p (prepare tk') (up p)])
        (trace (snd (release up s)))"
    using h release_first_candidate(1) [of s tk tk' pre p post r t up] by blast
next
  assume h: "state s \<noteq> NO_TOKEN \<and> token s = Some tk \<and>
    tk' = (if state s = TOKEN_HELD
           then dict_set tk (PInt (owner_id s)) (PInt (time s + 1)) else tk) \<and>
    get_order (owner_id s) (get_peers s) = pre @ p # post \<and>
    (\<forall>q \<in> set pre. \<exists>rq tq. dict_get (request s) q = Inr rq \<and>
        dict_get tk (PInt q) = Inr (PInt tq) \<and> rq \<le> tq) \<and>
    dict_get (request s) p = Inr r \<and> dict_get tk (PInt p) = Inr (PInt t) \<and> t < r"
    and u: "up p"
  show "release up s =
           (Returned, s\<lparr>time := time s + 1, token := Some tk', state := NO_TOKEN,
              trace := trace s @ [Acquire, Release, ObtainTokenCall p (prepare tk') True,
                                  Acquire, Release]\<rparr>)"
    using h u release_first_candidate(2) [of s tk tk' pre p post r t up] by blast
qed


theorem release_hands_to_first_candidate_witness:
  "sorted [2::int, 3] \<and> get_order 1 [2, 3] = [2, 3] \<and>
   reachable (snd (request_token all_up 5 3 token_holder)) \<and>
   state (snd (request_token all_up 5 3 token_holder)) = TOKEN_HELD \<and>
   token (snd (request_token all_up 5 3 token_holder)) =
     Some [(PInt 1, PInt 3), (PInt 2, PInt 0), (PInt 3, PInt 0)] \<and>
   request (snd (request_token all_up 5 3 token_holder)) = [(1, 0), (2, 0), (3, 6)] \<and>
   all_up 3 \<and>
   release all_up (snd (request_token all_up 5 3 token_holder)) =
     (Returned,
      (snd (request_token all_up 5 3 token_holder))
        \<lparr>time := 7, token := Some [(PInt 1, PInt 7), (PInt 2, PInt 0), (PInt 3, PInt 0)],
         state := NO_TOKEN,
         trace := trace (snd (request_token all_up 5 3 token_holder)) @
           [Acquire, Release,
            ObtainTokenCall 3
              (PList [PList [PInt 1, PInt 7], PList [PInt 2, PInt 0], PList [PInt 3, PInt 0]])
              True,
            Acquire, Release]\<rparr>)"
proof -
  let ?S = "snd (request_token all_up 5 3 token_holder)"
  have S: "?S = \<lparr>owner_id = 1, peers = [2, 3], time = 6,
      token = Some [(PInt 1, PInt 3), (PInt 2, PInt 0), (PInt 3, PInt 0)],
      request = [(1, 0), (2, 0), (3, 6)], state = TOKEN_HELD, mon = 0,
      trace = [Acquire, Release, Acquire, Release, Acquire, Release, Acquire, Release,
               Acquire, Release]\<rparr>"
    using token_holder_requested [of 3] by (simp add: token_holder_eq dict_set_def)
  have r: "reachable ?S" by (rule reachable.r_request_token [OF reachable_token_holder])
  show ?thesis
    using r release_hands_to_first_candidate [where own = 1 and ps = "[2, 3]" and s = ?S
        and tk = "[(PInt 1, PInt 3), (PInt 2, PInt 0), (PInt 3, PInt 0)]"
        and tk' = "[(PInt 1, PInt 7), (PInt 2, PInt 0), (PInt 3, PInt 0)]"
        and pre = "[2]" and p = 3 and post = "[]" and r = 6 and t = 0 and up = all_up]
    by (simp add: S get_order_eq dict_get_def dict_set_def all_up_def get_peers_def
        prepare_def items_def)
qed

section \<open>A failed send\<close>

lemma token_holder_requested_2:
  "snd (request_token all_up 5 2 token_holder) =
     \<lparr>owner_id = 1, peers = [2, 3], time = 6,
      token = Some [(PInt 1, PInt 3), (PInt 2, PInt 0), (PInt 3, PInt 0)],
      request = [(1, 0), (2, 6), (3, 0)], state = TOKEN_HELD, mon = 0,
      trace = [Acquire, Release, Acquire, Release, Acquire, Release, Acquire, Release,
               Acquire, Release]\<rparr>"
  using token_holder_requested [of 2] by (simp add: token_holder_eq dict_set_def)

lemma token_holder_requested_2_3:
  "snd (request_token all_up 5 3 (snd (request_token all_up 5 2 token_holder))) =
     \<lparr>owner_id = 1, peers = [2, 3], time = 7,
      token = Some [(PInt 1, PInt 3), (PInt 2, PInt 0), (PInt 3, PInt 0)],
      request = [(1, 0), (2, 6), (3, 7)], state = TOKEN_HELD, mon = 0,
      trace = [Acquire, Release, Acquire, Release, Acquire, Release, Acquire, Release,
               Acquire, Release, Acquire, Release]\<rparr>"
  unfolding token_holder_requested_2
  by (simp add: request_token_unfold request_token_update_def stmt_defs dict_get_def dict_set_def)

text \<open>
  C6. The handler of a failed send in \<open>release()\<close> does not take the monitor back. Peer 1
  holds the token, peers 2 and 3 have both asked for it, and peer 2 is unreachable.
  \<open>release()\<close> gives the monitor up, fails to call peer 2 and evicts it with the monitor
  free: no \<open>Acquire\<close> is recorded between the failed call and \<open>UnregisterPeer 2\<close>. Going on
  to peer 3, it releases the free monitor, which raises \<open>RuntimeError\<close> into the same
  handler, so the reachable peer 3 is evicted without having been called; and the final
  release of the monitor raises \<open>RuntimeError\<close> to the caller.
\<close>

theorem release_failed_send_skips_reacquire:
  "reachable (snd (request_token all_up 5 3 (snd (request_token all_up 5 2 token_holder)))) \<and>
   up_except 2 3 \<and>
   release (up_except 2)
       (snd (request_token all_up 5 3 (snd (request_token all_up 5 2 token_holder)))) =
     (Raised RuntimeError,
      (snd (request_token all_up 5 3 (snd (request_token all_up 5 2 token_holder))))
        \<lparr>peers := [], time := 8, token := Some [(PInt 1, PInt 8)], request := [(1, 0)],
         state := TOKEN_PRESENT,
         trace := trace (snd (request_token all_up 5 3 (snd (request_token all_up 5 2 token_holder)))) @
           [Acquire, Release,
            ObtainTokenCall 2
              (PList [PList [PInt 1, PInt 8], PList [PInt 2, PInt 0], PList [PInt 3, PInt 0]])
              False,
            UnregisterPeer 2, UnregisterPeer 3]\<rparr>)"
proof -
  have r: "reachable (snd (request_token all_up 5 3 (snd (request_token all_up 5 2 token_holder))))"
    by (intro reachable.r_request_token reachable_token_holder)
  show ?thesis
    using r unfolding token_holder_requested_2_3
    by (simp add: release_def stmt_defs call_obtain_token_def get_order_eq up_except_def
        dict_get_def dict_set_def dict_del_def prepare_def items_def)
qed

text \<open>
  C5. \<open>destroy()\<close> on peer 1, which holds the token, while peer 2 has asked for it and is
  unreachable and peer 3 is reachable: the \<open>release()\<close> it performs first fails to send
  to peer 2 and raises \<open>RuntimeError\<close>, which ends \<open>destroy()\<close> before it walks the
  priority order. Peer 3 is never offered the token, and the state stays \<open>TOKEN_PRESENT\<close>.
\<close>

theorem destroy_loses_token:
  "reachable (snd (request_token all_up 5 2 token_holder)) \<and>
   up_except 2 3 \<and>
   destroy (up_except 2) (snd (request_token all_up 5 2 token_holder)) =
     (Raised RuntimeError,
      (snd (request_token all_up 5 2 token_holder))
        \<lparr>peers := [3], time := 8, token := Some [(PInt 1, PInt 8), (PInt 3, PInt 0)],
         request := [(1, 0), (3, 0)], state := TOKEN_PRESENT,
         trace := trace (snd (request_token all_up 5 2 token_holder)) @
           [Acquire, Release, Acquire, Release,
            ObtainTokenCall 2
              (PList [PList [PInt 1, PInt 8], PList [PInt 2, PInt 0], PList [PInt 3, PInt 0]])
              False,
            UnregisterPeer 2]\<rparr>)"
proof -
  have r: "reachable (snd (request_token all_up 5 2 token_holder))"
    by (intro reachable.r_request_token reachable_token_holder)
  show ?thesis
    using r unfolding token_holder_requested_2
    by (simp add: destroy_def release_def stmt_defs call_obtain_token_def get_order_eq
        up_except_def dict_get_def dict_set_def dict_del_def prepare_def items_def)
qed

text \<open>
  The handler of a failed \<open>request_token\<close> call in \<open>acquire()\<close>, for comparison, takes the
  monitor before it evicts the peer, gives it up, and the \<open>finally\<close> takes it again.
\<close>

lemma acquire_loop_evicts:
  assumes "reply p = Down" and "mon s = Suc m" and "token s = Some tk"
    and "dict_del (request s) p = Inr req'" and "dict_del tk (PInt p) = Inr tk'"
  shows "acquire_loop reply [p] s =
     (Returned, s\<lparr>peers := removeAll p (peers s), token := Some tk', request := req',
                  trace := trace s @ [Release, RequestTokenCall p (time s) (owner_id s) False,
                                      Acquire, UnregisterPeer p, Release, Acquire]\<rparr>)"
  using assms
  by (cases s) (simp add: stmt_defs call_request_token_def)

section \<open>Receiving the token\<close>

lemma merge_loop_ints:
  assumes "token s = Some tk"
  shows "merge_loop (int_dict xs @ rest) s =
     merge_loop rest (s\<lparr>time := merged_time xs (time s),
                         token := Some (merged_token (int_dict xs) tk)\<rparr>)"
  using assms
proof (induction xs arbitrary: s tk)
  case Nil
  then have "s\<lparr>time := time s, token := Some tk\<rparr> = s" by (cases s) simp
  then show ?case by (simp add: int_dict_def merged_time_def merged_token_def)
next
  case (Cons x xs)
  let ?s1 = "s\<lparr>token := Some (dict_set tk (PInt (fst x)) (PInt (snd x))),
               time := max (time s) (snd x + 1)\<rparr>"
  have t1: "token ?s1 = Some (dict_set tk (PInt (fst x)) (PInt (snd x)))" by simp
  have "merge_loop (int_dict (x # xs) @ rest) s = merge_loop (int_dict xs @ rest) ?s1"
    using Cons.prems by (simp add: int_dict_def token_setitem_def)
  also have "\<dots> = merge_loop rest (?s1\<lparr>time := merged_time xs (time ?s1),
        token := Some (merged_token (int_dict xs) (dict_set tk (PInt (fst x)) (PInt (snd x))))\<rparr>)"
    by (rule Cons.IH [OF t1])
  finally show ?case
    by (simp add: int_dict_def merged_time_def merged_token_def)
qed

lemma merge_loop_not_int:
  assumes "token s = Some tk" and "\<not> is_int v"
  shows "merge_loop ((k, v) # post) s = (Raised TypeError, s\<lparr>token := Some (dict_set tk k v)\<rparr>)"
  using assms by (cases v) (simp_all add: token_setitem_def)

lemma merge_loop_frame:
  "fst (merge_loop msg s) \<noteq> Blocked \<and> state (snd (merge_loop msg s)) = state s \<and>
   mon (snd (merge_loop msg s)) = mon s \<and> trace (snd (merge_loop msg s)) = trace s \<and>
   request (snd (merge_loop msg s)) = request s \<and> peers (snd (merge_loop msg s)) = peers s"
proof (induction msg arbitrary: s)
  case Nil
  then show ?case by simp
next
  case (Cons e es)
  show ?case
  proof (cases "token s")
    case None
    then show ?thesis by (simp add: token_setitem_def)
  next
    case (Some tk)
    then show ?thesis
      using Cons [of "s\<lparr>token := Some (dict_set tk (fst e) (snd e)), time := max (time s) (t + 1)\<rparr>" for t]
      by (cases "snd e") (simp_all add: token_setitem_def)
  qed
qed

lemma obtain_token_unfold:
  "obtain_token payload s =
     (let s1 = s\<lparr>mon := Suc (mon s), trace := trace s @ [Acquire], time := time s + 1\<rparr>;
          s2 = (case unprepare payload of Inl e \<Rightarrow> s1 | Inr msg \<Rightarrow> snd (merge_loop msg s1))
      in (Returned, s2\<lparr>state := TOKEN_PRESENT, trace := trace s2 @ [NotifyAll, Release],
                        mon := mon s2 - 1\<rparr>))"
proof (cases "unprepare payload")
  case (Inl e)
  then show ?thesis
    by (simp add: obtain_token_def stmt_defs Let_def)
next
  case (Inr msg)
  let ?s1 = "s\<lparr>mon := Suc (mon s), trace := trace s @ [Acquire], time := time s + 1\<rparr>"
  obtain o2 s2 where m: "merge_loop msg ?s1 = (o2, s2)" by (cases "merge_loop msg ?s1")
  have f: "o2 \<noteq> Blocked" "mon s2 = Suc (mon s)"
    using merge_loop_frame [of msg ?s1] m by simp_all
  show ?thesis
    using Inr m f by (cases o2) (simp_all add: obtain_token_def stmt_defs Let_def)
qed


lemma merged_get_other:
  "k \<notin> fst ` set msg \<Longrightarrow> dict_get (merged_token msg tk) k = dict_get tk k"
  unfolding merged_token_def
  by (induction msg arbitrary: tk) (auto simp: dict_get_set_other)

lemma merged_get:
  "distinct (map fst msg) \<Longrightarrow> (k, v) \<in> set msg \<Longrightarrow>
   dict_get (merged_token msg tk) k = Inr v"
proof (induction msg arbitrary: tk)
  case Nil
  then show ?case by simp
next
  case (Cons e msg)
  show ?case
  proof (cases "e = (k, v)")
    case True
    then have "k \<notin> fst ` set msg" using Cons.prems(1) by auto
    from merged_get_other [OF this, of "dict_set tk k v"] True
    show ?thesis by (simp add: merged_token_def dict_get_set_same)
  next
    case False
    then have "(k, v) \<in> set msg" using Cons.prems(2) by simp
    from Cons.IH [OF _ this, of "dict_set tk (fst e) (snd e)"] Cons.prems(1)
    show ?thesis by (simp add: merged_token_def)
  qed
qed

lemma merged_time_ge: "clk \<le> merged_time xs clk"
  unfolding merged_time_def
proof (induction xs arbitrary: clk)
  case Nil
  then show ?case by simp
next
  case (Cons x xs)
  have "clk \<le> max clk (snd x + 1)" by simp
  also have "\<dots> \<le> fold (\<lambda>kv c. max c (snd kv + 1)) xs (max clk (snd x + 1))" by (rule Cons)
  finally show ?case by simp
qed

lemma merged_time_gt: "(p, t) \<in> set xs \<Longrightarrow> t < merged_time xs clk"
proof (induction xs arbitrary: clk)
  case Nil
  then show ?case by simp
next
  case (Cons x xs)
  show ?case
  proof (cases "x = (p, t)")
    case True
    have "t < max clk (t + 1)" by simp
    also have "\<dots> \<le> merged_time xs (max clk (t + 1))" by (rule merged_time_ge)
    finally show ?thesis using True by (simp add: merged_time_def)
  next
    case False
    then have "(p, t) \<in> set xs" using Cons.prems by simp
    from Cons.IH [OF this, of "max clk (snd x + 1)"] show ?thesis by (simp add: merged_time_def)
  qed
qed

lemma obtain_token_ints:
  assumes "distinct (map fst xs)" and "token s = Some tk"
  shows "obtain_token (prepare (int_dict xs)) s =
     (Returned, s\<lparr>time := merged_time xs (time s + 1),
                  token := Some (merged_token (int_dict xs) tk),
                  state := TOKEN_PRESENT,
                  trace := trace s @ [Acquire, NotifyAll, Release]\<rparr>)"
proof -
  let ?s1 = "s\<lparr>mon := Suc (mon s), trace := trace s @ [Acquire], time := time s + 1\<rparr>"
  have u: "unprepare (prepare (int_dict xs)) = Inr (int_dict xs)"
    by (rule unprepare_prepare [OF distinct_int_dict [OF assms(1)] hashable_int_dict])
  have t1: "token ?s1 = Some tk" using assms(2) by simp
  have "merge_loop (int_dict xs) ?s1 =
      (Returned, ?s1\<lparr>time := merged_time xs (time ?s1),
                        token := Some (merged_token (int_dict xs) tk)\<rparr>)"
    using merge_loop_ints [OF t1, of xs "[]"] by simp
  then show ?thesis
    by (cases s) (simp add: obtain_token_unfold u Let_def)
qed

text \<open>
  C7. A well-formed serialized token is the wire form \<open>_prepare\<close> gives a mapping from
  peer ids to timestamps: a sequence of pairs \<open>(p, t)\<close>, one for each peer id. For every
  such token and every receiver whose token dictionary is defined (as it is in every
  reachable state), \<open>obtain_token\<close> returns, the receiver's state is \<open>TOKEN_PRESENT\<close>,
  the local \<open>token[p]\<close> is \<open>t\<close> for every received pair \<open>(p, t)\<close>, and the receiver's
  clock is strictly greater than every received timestamp and than its value before.
\<close>

theorem obtain_token_merges:
  assumes "distinct (map fst xs)" and "token s \<noteq> None"
  shows "fst (obtain_token (prepare (int_dict xs)) s) = Returned \<and>
     state (snd (obtain_token (prepare (int_dict xs)) s)) = TOKEN_PRESENT \<and>
     (\<forall>(p, t) \<in> set xs.
        token_getitem (snd (obtain_token (prepare (int_dict xs)) s)) (PInt p) = Inr (PInt t) \<and>
        t < time (snd (obtain_token (prepare (int_dict xs)) s))) \<and>
     time s < time (snd (obtain_token (prepare (int_dict xs)) s))"
proof -
  obtain tk where tk: "token s = Some tk" using assms(2) by auto
  note eq = obtain_token_ints [OF assms(1) tk]
  have g: "dict_get (merged_token (int_dict xs) tk) (PInt p) = Inr (PInt t)"
    if "(p, t) \<in> set xs" for p t
  proof -
    have "(PInt p, PInt t) \<in> set (int_dict xs)" using that by (force simp: int_dict_def)
    then show ?thesis by (rule merged_get [OF distinct_int_dict [OF assms(1)]])
  qed
  have c: "time s < merged_time xs (time s + 1)"
    using merged_time_ge [of "time s + 1" xs] by simp
  show ?thesis
    using g c merged_time_gt by (auto simp: eq token_getitem_def)
qed

theorem obtain_token_merges_witness:
  "distinct (map fst [(1::int, 5::int), (2, 7)]) \<and> token (initialized 2 [1]) \<noteq> None \<and>
   reachable (initialized 2 [1]) \<and>
   fst (obtain_token (prepare (int_dict [(1, 5), (2, 7)])) (initialized 2 [1])) = Returned \<and>
   state (snd (obtain_token (prepare (int_dict [(1, 5), (2, 7)])) (initialized 2 [1]))) = TOKEN_PRESENT \<and>
   token_getitem (snd (obtain_token (prepare (int_dict [(1, 5), (2, 7)])) (initialized 2 [1]))) (PInt 1)
     = Inr (PInt 5) \<and>
   token_getitem (snd (obtain_token (prepare (int_dict [(1, 5), (2, 7)])) (initialized 2 [1]))) (PInt 2)
     = Inr (PInt 7) \<and>
   7 < time (snd (obtain_token (prepare (int_dict [(1, 5), (2, 7)])) (initialized 2 [1])))"
proof -
  have d: "distinct (map fst [(1::int, 5::int), (2, 7)])" by simp
  have t: "token (initialized 2 [1]) \<noteq> None" by (simp add: initialized_eq)
  have r: "reachable (initialized 2 [1])"
    unfolding initialized_def by (rule reachable.r_initialize)
  show ?thesis
    using obtain_token_merges [OF d t] d t r by simp
qed

text \<open>
  C10. For every argument and every lock state, \<open>obtain_token\<close> returns without raising,
  the state is \<open>TOKEN_PRESENT\<close> afterwards, and the monitor was taken, all waiters were
  notified and the monitor was given back, in this order, so that it is held as often as
  before. When the payload decodes to entries with integer timestamps followed by an
  entry \<open>(k, v)\<close> whose value is not an integer, the merge stops at \<open>v + 1\<close>: the entries
  before it remain stored and counted in the clock, and \<open>token[k] = v\<close> remains stored as
  well, since the store precedes the addition.
\<close>

theorem obtain_token_always_finishes:
  "fst (obtain_token payload s) = Returned \<and>
   state (snd (obtain_token payload s)) = TOKEN_PRESENT \<and>
   mon (snd (obtain_token payload s)) = mon s \<and>
   trace (snd (obtain_token payload s)) = trace s @ [Acquire, NotifyAll, Release] \<and>
   (token s = Some tk \<and> unprepare payload = Inr (int_dict pre @ (k, v) # post) \<and>
    \<not> is_int v \<longrightarrow>
      token (snd (obtain_token payload s)) = Some (dict_set (merged_token (int_dict pre) tk) k v) \<and>
      time (snd (obtain_token payload s)) = merged_time pre (time s + 1))"
proof -
  let ?s1 = "s\<lparr>mon := Suc (mon s), trace := trace s @ [Acquire], time := time s + 1\<rparr>"
  have frame: "state (snd (obtain_token payload s)) = TOKEN_PRESENT \<and>
      mon (snd (obtain_token payload s)) = mon s \<and>
      trace (snd (obtain_token payload s)) = trace s @ [Acquire, NotifyAll, Release]"
  proof (cases "unprepare payload")
    case (Inl e)
    then show ?thesis by (simp add: obtain_token_unfold Let_def)
  next
    case (Inr msg)
    then show ?thesis
      using merge_loop_frame [of msg ?s1] by (simp add: obtain_token_unfold Let_def)
  qed
  have part: "token (snd (obtain_token payload s)) = Some (dict_set (merged_token (int_dict pre) tk) k v) \<and>
      time (snd (obtain_token payload s)) = merged_time pre (time s + 1)"
    if tk: "token s = Some tk" and u: "unprepare payload = Inr (int_dict pre @ (k, v) # post)"
      and v: "\<not> is_int v"
  proof -
    let ?s2 = "?s1\<lparr>time := merged_time pre (time ?s1),
                     token := Some (merged_token (int_dict pre) tk)\<rparr>"
    have t1: "token ?s1 = Some tk" using tk by simp
    have t2: "token ?s2 = Some (merged_token (int_dict pre) tk)" by simp
    have "merge_loop (int_dict pre @ (k, v) # post) ?s1 = merge_loop ((k, v) # post) ?s2"
      by (rule merge_loop_ints [OF t1])
    also have "\<dots> = (Raised TypeError, ?s2\<lparr>token := Some (dict_set (merged_token (int_dict pre) tk) k v)\<rparr>)"
      by (rule merge_loop_not_int [OF t2 v])
    finally show ?thesis
      by (simp add: obtain_token_unfold u Let_def)
  qed
  show ?thesis
    using frame part by (simp add: obtain_token_unfold Let_def)
qed

theorem obtain_token_always_finishes_witness:
  "token (initialized 2 [1]) = Some [(PInt 2, PInt 0), (PInt 1, PInt 0)] \<and>
   unprepare (PList [PList [PInt 1, PInt 5], PList [PInt 2, PStr ''x''], PList [PInt 3, PInt 9]]) =
     Inr (int_dict [(1, 5)] @ (PInt 2, PStr ''x'') # [(PInt 3, PInt 9)]) \<and>
   \<not> is_int (PStr ''x'') \<and>
   fst (obtain_token (PList [PList [PInt 1, PInt 5], PList [PInt 2, PStr ''x''], PList [PInt 3, PInt 9]])
          (initialized 2 [1])) = Returned \<and>
   state (snd (obtain_token (PList [PList [PInt 1, PInt 5], PList [PInt 2, PStr ''x''], PList [PInt 3, PInt 9]])
          (initialized 2 [1]))) = TOKEN_PRESENT \<and>
   token (snd (obtain_token (PList [PList [PInt 1, PInt 5], PList [PInt 2, PStr ''x''], PList [PInt 3, PInt 9]])
          (initialized 2 [1]))) = Some [(PInt 2, PStr ''x''), (PInt 1, PInt 5)] \<and>
   time (snd (obtain_token (PList [PList [PInt 1, PInt 5], PList [PInt 2, PStr ''x''], PList [PInt 3, PInt 9]])
          (initialized 2 [1]))) = 6"
proof -
  have t: "token (initialized 2 [1]) = Some [(PInt 2, PInt 0), (PInt 1, PInt 0)]"
    by (simp add: initialized_eq dict_set_def)
  have u: "unprepare (PList [PList [PInt 1, PInt 5], PList [PInt 2, PStr ''x''], PList [PInt 3, PInt 9]]) =
     Inr (int_dict [(1, 5)] @ (PInt 2, PStr ''x'') # [(PInt 3, PInt 9)])"
    by (simp add: unprepare_def int_dict_def dict_set_def)
  have v: "\<not> is_int (PStr ''x'')" by simp
  show ?thesis
    using obtain_token_always_finishes [where payload = "PList [PList [PInt 1, PInt 5], PList [PInt 2, PStr ''x''], PList [PInt 3, PInt 9]]"
        and s = "initialized 2 [1]" and tk = "[(PInt 2, PInt 0), (PInt 1, PInt 0)]"
        and pre = "[(1, 5)]" and k = "PInt 2" and v = "PStr ''x''" and post = "[(PInt 3, PInt 9)]"]
      t u v
    by (simp add: merged_token_def merged_time_def int_dict_def dict_set_def initialized_eq)
qed

end
